theory Spec2Isabelle
  imports Complex_Main "HOL-Library.Word" "HOL-Library.Sublist"
begin

section \<open>JavaScript strings\<close>

text \<open>
  A JavaScript string is a sequence of UTF-16 code units: \<open>s.length\<close> counts code units and
  \<open>s[i]\<close> reads one. \<open>js\<close> writes an ASCII literal of the source as such a sequence.
\<close>

type_synonym code_unit = "16 word"
type_synonym jsstring = "code_unit list"

definition js :: "string \<Rightarrow> jsstring" where
  "js s = map of_char s"

definition isAscii :: "code_unit \<Rightarrow> bool" where
  "isAscii c \<longleftrightarrow> c < 0x80"

definition asciiUpper :: "code_unit \<Rightarrow> code_unit" where
  "asciiUpper c = (if 0x61 \<le> c \<and> c \<le> 0x7A then c - 0x20 else c)"

definition asciiLower :: "code_unit \<Rightarrow> code_unit" where
  "asciiLower c = (if 0x41 \<le> c \<and> c \<le> 0x5A then c + 0x20 else c)"

text \<open>
  \<open>String.prototype.toUpperCase\<close> and \<open>toLowerCase\<close> follow the Unicode case mappings. On a
  string of ASCII code units they map each unit on its own, \<open>a-z\<close> to \<open>A-Z\<close> (or back) and
  nothing else; what they do to any other string is the parameter \<open>unicodeUpper\<close>
  (\<open>unicodeLower\<close>), a table of the JavaScript engine that is no part of this program.
\<close>

definition toUpperCase :: "(jsstring \<Rightarrow> jsstring) \<Rightarrow> jsstring \<Rightarrow> jsstring" where
  "toUpperCase unicodeUpper s =
     (if list_all isAscii s then map asciiUpper s else unicodeUpper s)"

definition toLowerCase :: "(jsstring \<Rightarrow> jsstring) \<Rightarrow> jsstring \<Rightarrow> jsstring" where
  "toLowerCase unicodeLower s =
     (if list_all isAscii s then map asciiLower s else unicodeLower s)"

text \<open>
  \<open>longer.endsWith(shorter)\<close>: the search string is compared with the code units that end
  the receiver.
\<close>

definition endsWith :: "jsstring \<Rightarrow> jsstring \<Rightarrow> bool" where
  "endsWith s searchString \<longleftrightarrow>
     length searchString \<le> length s \<and>
     drop (length s - length searchString) s = searchString"

text \<open>
  \<open>x || ''\<close>: the empty string stands in for \<open>undefined\<close> (a missing property, \<open>None\<close>)
  and for the empty string.
\<close>

definition orEmpty :: "jsstring option \<Rightarrow> jsstring" where
  "orEmpty x = (case x of None \<Rightarrow> [] | Some s \<Rightarrow> if s = [] then [] else s)"


section \<open>JavaScript numbers\<close>

text \<open>
  A Number is an IEEE 754 binary64 value. String lengths and the entries of the two tables
  are integers far below \<open>2^53\<close>, where Number arithmetic is exact: they are \<open>nat\<close>. The
  similarity of \<open>fuzzyMatch\<close> is a quotient and the tolerance is any Number, so these are
  values of \<open>number\<close>: a finite value is the rational it denotes (the sign of zero is not
  kept: nothing here observes it).

  \<open>round64\<close> rounds a rational to the nearest binary64 value, ties to the even
  significand: with \<open>2^e \<le> |x| < 2^(e+1)\<close> (and \<open>e\<close> no less than \<open>-1022\<close>, below which
  the values are subnormal) the result is a multiple \<open>n\<close> of \<open>2^(e-52)\<close>; it overflows to
  an infinity when it reaches \<open>2^1024\<close>.
\<close>

datatype number = Finite rat | PosInfinity | NegInfinity | NaN

fun bitLength :: "int \<Rightarrow> int" where
  "bitLength n = (if n \<le> 0 then 0 else bitLength (n div 2) + 1)"

declare bitLength.simps [simp del]

definition pow2 :: "int \<Rightarrow> rat" where
  "pow2 k = (if 0 \<le> k then 2 ^ nat k else 1 / 2 ^ nat (- k))"

definition floorLog2 :: "rat \<Rightarrow> int" where
  "floorLog2 y =
     (if 1 \<le> y then bitLength \<lfloor>y\<rfloor> - 1
      else
        let k = bitLength \<lfloor>1 / y\<rfloor> - 1
        in if y * pow2 k = 1 then - k else - k - 1)"

definition roundTiesToEven :: "rat \<Rightarrow> int" where
  "roundTiesToEven x =
     (let n = \<lfloor>x\<rfloor>; r = x - of_int n
      in if r < 1 / 2 then n else if 1 / 2 < r then n + 1 else if even n then n else n + 1)"

definition round64 :: "rat \<Rightarrow> number" where
  "round64 x =
     (if x = 0 then Finite 0
      else
        let y = \<bar>x\<bar>;
            e = max (floorLog2 y) (- 1022);
            q = pow2 (e - 52);
            n = roundTiesToEven (y / q)
        in if 1023 < e \<or> (e = 1023 \<and> n = 2 ^ 53)
           then (if 0 < x then PosInfinity else NegInfinity)
           else Finite (sgn x * of_int n * q))"

text \<open>\<open>x / y\<close> for two lengths (non-negative integers; a zero is \<open>+0\<close>).\<close>

definition number_div_nat :: "nat \<Rightarrow> nat \<Rightarrow> number" where
  "number_div_nat x y =
     (if y = 0 then (if x = 0 then NaN else PosInfinity)
      else round64 (of_nat x / of_nat y))"

fun number_sub :: "number \<Rightarrow> number \<Rightarrow> number" where
  "number_sub (Finite x) (Finite y) = round64 (x - y)"
| "number_sub NaN y = NaN"
| "number_sub x NaN = NaN"
| "number_sub PosInfinity PosInfinity = NaN"
| "number_sub NegInfinity NegInfinity = NaN"
| "number_sub PosInfinity y = PosInfinity"
| "number_sub NegInfinity y = NegInfinity"
| "number_sub (Finite x) PosInfinity = NegInfinity"
| "number_sub (Finite x) NegInfinity = PosInfinity"

text \<open>\<open>x >= y\<close>: false as soon as one side is \<open>NaN\<close>.\<close>

fun number_ge :: "number \<Rightarrow> number \<Rightarrow> bool" where
  "number_ge (Finite x) (Finite y) \<longleftrightarrow> y \<le> x"
| "number_ge NaN y \<longleftrightarrow> False"
| "number_ge x NaN \<longleftrightarrow> False"
| "number_ge PosInfinity y \<longleftrightarrow> True"
| "number_ge x NegInfinity \<longleftrightarrow> True"
| "number_ge (Finite x) PosInfinity \<longleftrightarrow> False"
| "number_ge NegInfinity y \<longleftrightarrow> False"


section \<open>compareAccountNumbers\<close>

text \<open>
  \<open>/[^A-Z0-9]/gi\<close> has the flag \<open>i\<close> and not the flag \<open>u\<close>. A code unit is accepted by
  the class \<open>[A-Z0-9]\<close> when its canonical form is the canonical form of a member of the
  class. The canonical form of a code unit is the upper case of the string of that one
  unit when this is again one unit, except that a unit from 128 on is never taken to one
  below 128; otherwise it is the unit itself. The negated class matches every other unit,
  and \<open>replace\<close> with the flag \<open>g\<close> deletes all of those.
\<close>

definition canonicalize :: "(jsstring \<Rightarrow> jsstring) \<Rightarrow> code_unit \<Rightarrow> code_unit" where
  "canonicalize unicodeUpper ch =
     (let u = toUpperCase unicodeUpper [ch]
      in if length u \<noteq> 1 then ch
         else let cu = hd u in if 128 \<le> ch \<and> cu < 128 then ch else cu)"

definition classAZ09 :: "code_unit list" where
  "classAZ09 = map of_nat ([0x41..<0x5B] @ [0x30..<0x3A])"

definition matchesAZ09 :: "(jsstring \<Rightarrow> jsstring) \<Rightarrow> code_unit \<Rightarrow> bool" where
  "matchesAZ09 unicodeUpper ch \<longleftrightarrow>
     list_ex (\<lambda>a. canonicalize unicodeUpper a = canonicalize unicodeUpper ch) classAZ09"

definition replaceNonAlnum :: "(jsstring \<Rightarrow> jsstring) \<Rightarrow> jsstring \<Rightarrow> jsstring" where
  "replaceNonAlnum unicodeUpper s = filter (matchesAZ09 unicodeUpper) s"

definition compareAccountNumbers ::
    "(jsstring \<Rightarrow> jsstring) \<Rightarrow> jsstring \<Rightarrow> jsstring \<Rightarrow> bool" where
  "compareAccountNumbers unicodeUpper acc1 acc2 =
     (if acc1 = [] \<or> acc2 = [] then False
      else
        let norm1 = toUpperCase unicodeUpper (replaceNonAlnum unicodeUpper acc1);
            norm2 = toUpperCase unicodeUpper (replaceNonAlnum unicodeUpper acc2)
        in if length norm1 = 0 \<or> length norm2 = 0 then False
           else if norm1 = norm2 then True
           else
             let (shorter, longer) =
                   (if length norm1 < length norm2 then (norm1, norm2) else (norm2, norm1))
             in endsWith longer shorter)"


section \<open>calculateLevenshteinDistance\<close>

text \<open>
  Both tables of the program are arrays of rows. \<open>matrix[r][c] = v\<close> writes one cell; every
  write and read of the program is inside the table, as its loop bounds show.
\<close>

definition setCell :: "'a list list \<Rightarrow> nat \<Rightarrow> nat \<Rightarrow> 'a \<Rightarrow> 'a list list" where
  "setCell matrix r c v = matrix[r := (matrix ! r)[c := v]]"

text \<open>
  The cells of the distance table start as \<open>null\<close> (\<open>None\<close>); in arithmetic a \<open>null\<close>
  counts as \<open>0\<close>.
\<close>

definition toNumber :: "nat option \<Rightarrow> nat" where
  "toNumber cell = (case cell of None \<Rightarrow> 0 | Some n \<Rightarrow> n)"

definition min3 :: "nat \<Rightarrow> nat \<Rightarrow> nat \<Rightarrow> nat" where
  "min3 x y z = min (min x y) z"

text \<open>The body of the inner loop, the inner loop for row \<open>j\<close>, and the function.\<close>

definition levCell ::
    "jsstring \<Rightarrow> jsstring \<Rightarrow> nat \<Rightarrow> nat option list list \<Rightarrow> nat \<Rightarrow> nat option list list" where
  "levCell a b j matrix i =
     (let indicator = (if a ! (i - 1) = b ! (j - 1) then 0 else 1)
      in setCell matrix j i
           (Some (min3 (toNumber (matrix ! j ! (i - 1)) + 1)
                       (toNumber (matrix ! (j - 1) ! i) + 1)
                       (toNumber (matrix ! (j - 1) ! (i - 1)) + indicator))))"

definition levRow ::
    "jsstring \<Rightarrow> jsstring \<Rightarrow> nat option list list \<Rightarrow> nat \<Rightarrow> nat option list list" where
  "levRow a b matrix j = foldl (levCell a b j) matrix [1..<length a + 1]"

definition calculateLevenshteinDistance :: "jsstring \<Rightarrow> jsstring \<Rightarrow> nat option" where
  "calculateLevenshteinDistance a b =
     (if length a = 0 then Some (length b)
      else if length b = 0 then Some (length a)
      else
        let matrix0 = replicate (length b + 1) (replicate (length a + 1) None);
            matrix1 = foldl (\<lambda>matrix i. setCell matrix 0 i (Some i)) matrix0 [0..<length a + 1];
            matrix2 = foldl (\<lambda>matrix j. setCell matrix (j + 1) 0 (Some (j + 1))) matrix1
                        [0..<length b];
            matrix3 = foldl (levRow a b) matrix2 [1..<length b + 1]
        in matrix3 ! length b ! length a)"


section \<open>fuzzyMatch\<close>

text \<open>
  Every call passes the tolerance, so the default \<open>0.8\<close> of the parameter plays no part.
  \<open>distance / maxLength\<close> is the binary64 quotient of the two integers, and the
  similarity the binary64 difference of 1 and that quotient.
\<close>

definition fuzzyMatch :: "jsstring \<Rightarrow> jsstring \<Rightarrow> number \<Rightarrow> bool" where
  "fuzzyMatch str1 str2 tolerance =
     (if str1 = [] \<and> str2 = [] then True
      else if str1 = [] \<or> str2 = [] then False
      else
        let distance = calculateLevenshteinDistance str1 str2;
            maxLength = max (length str1) (length str2)
        in if maxLength = 0 then True
           else
             let similarity =
                   number_sub (Finite 1) (number_div_nat (toNumber distance) maxLength)
             in number_ge similarity tolerance)"


section \<open>The comparison of one field\<close>

text \<open>
  \<open>\s\<close> in a regular expression: the white space and line terminator code points of
  ECMAScript. \<open>/[\s.-]/g\<close> adds the dot and the hyphen, and \<open>replace\<close> deletes all of them.
\<close>

definition isWhiteSpace :: "code_unit \<Rightarrow> bool" where
  "isWhiteSpace c \<longleftrightarrow>
     c = 0x09 \<or> c = 0x0A \<or> c = 0x0B \<or> c = 0x0C \<or> c = 0x0D \<or> c = 0x20 \<or> c = 0xA0 \<or>
     c = 0x1680 \<or> (0x2000 \<le> c \<and> c \<le> 0x200A) \<or> c = 0x2028 \<or> c = 0x2029 \<or>
     c = 0x202F \<or> c = 0x205F \<or> c = 0x3000 \<or> c = 0xFEFF"

definition isSeparator :: "code_unit \<Rightarrow> bool" where
  "isSeparator c \<longleftrightarrow> isWhiteSpace c \<or> c = 0x2E \<or> c = 0x2D"

definition replaceSeparators :: "jsstring \<Rightarrow> jsstring" where
  "replaceSeparators s = filter (\<lambda>c. \<not> isSeparator c) s"

record ComparisonEntry =
  value1 :: jsstring
  value2 :: jsstring
  match :: bool

text \<open>
  The body of \<open>allKeys.forEach\<close> in \<open>handleProcessMultiFile\<close>: the entry of the comparison
  for one key of the two extracted records. The literals \<open>0.7\<close> and \<open>0.8\<close> are the binary64
  values nearest to 7/10 and 8/10.
\<close>

definition compareField ::
    "(jsstring \<Rightarrow> jsstring) \<Rightarrow> (jsstring \<Rightarrow> jsstring) \<Rightarrow>
     (string \<rightharpoonup> jsstring) \<Rightarrow> (string \<rightharpoonup> jsstring) \<Rightarrow> string \<Rightarrow> ComparisonEntry" where
  "compareField unicodeUpper unicodeLower data1 data2 key =
     (let val1 = orEmpty (data1 key);
          val2 = orEmpty (data2 key);
          isMatch =
            (if key = ''beneficiaryName'' \<or> key = ''bankName''
               then fuzzyMatch val1 val2 (round64 (7 / 10))
             else if key = ''goodsDescription''
               then fuzzyMatch val1 val2 (round64 (8 / 10))
             else if key = ''accountNumber''
               then compareAccountNumbers unicodeUpper val1 val2
             else replaceSeparators (toLowerCase unicodeLower (orEmpty (Some val1)))
                  = replaceSeparators (toLowerCase unicodeLower (orEmpty (Some val2))))
      in \<lparr>value1 = val1, value2 = val2, match = isMatch\<rparr>)"


section \<open>diffStrings\<close>

text \<open>
  A span of the result is an object \<open>{value, added?, removed?}\<close>: a missing property is
  \<open>None\<close>.
\<close>

record span =
  "value" :: jsstring
  added :: "bool option"
  removed :: "bool option"

text \<open>
  \<open>Array.from(str)\<close> iterates a string by code points: a high surrogate followed by a low
  surrogate is one element of two code units, every other code unit is an element of its
  own.
\<close>

definition isHighSurrogate :: "code_unit \<Rightarrow> bool" where
  "isHighSurrogate c \<longleftrightarrow> 0xD800 \<le> c \<and> c \<le> 0xDBFF"

definition isLowSurrogate :: "code_unit \<Rightarrow> bool" where
  "isLowSurrogate c \<longleftrightarrow> 0xDC00 \<le> c \<and> c \<le> 0xDFFF"

fun arrayFrom :: "jsstring \<Rightarrow> jsstring list" where
  "arrayFrom [] = []"
| "arrayFrom [c] = [[c]]"
| "arrayFrom (c # d # s) =
     (if isHighSurrogate c \<and> isLowSurrogate d then [c, d] # arrayFrom s
      else [c] # arrayFrom (d # s))"

text \<open>The table of the lengths of common subsequences: one cell, one row, all rows.\<close>

definition lcsCell ::
    "jsstring list \<Rightarrow> jsstring list \<Rightarrow> nat \<Rightarrow> nat list list \<Rightarrow> nat \<Rightarrow> nat list list" where
  "lcsCell oldChars newChars i matrix j =
     (if oldChars ! (i - 1) = newChars ! (j - 1)
      then setCell matrix i j (matrix ! (i - 1) ! (j - 1) + 1)
      else setCell matrix i j (max (matrix ! (i - 1) ! j) (matrix ! i ! (j - 1))))"

definition lcsRow ::
    "jsstring list \<Rightarrow> jsstring list \<Rightarrow> nat list list \<Rightarrow> nat \<Rightarrow> nat list list" where
  "lcsRow oldChars newChars matrix i =
     foldl (lcsCell oldChars newChars i) matrix [1..<length newChars + 1]"

definition lcsMatrix :: "jsstring list \<Rightarrow> jsstring list \<Rightarrow> nat list list" where
  "lcsMatrix oldChars newChars =
     foldl (lcsRow oldChars newChars)
       (replicate (length oldChars + 1) (replicate (length newChars + 1) 0))
       [1..<length oldChars + 1]"

text \<open>
  The \<open>while\<close> loop that walks back from the last cell; \<open>result.unshift\<close> puts the new span
  in front. When none of the three branches is taken the source goes round with \<open>i\<close> and
  \<open>j\<close> as they are: the last \<open>else\<close>. The termination proof shows that this never happens.
\<close>

function backtrace ::
    "jsstring list \<Rightarrow> jsstring list \<Rightarrow> nat list list \<Rightarrow> nat \<Rightarrow> nat \<Rightarrow> span list \<Rightarrow> span list" where
  "backtrace oldChars newChars matrix i j result =
     (if i > 0 \<or> j > 0 then
        if i > 0 \<and> j > 0 \<and> oldChars ! (i - 1) = newChars ! (j - 1) then
          backtrace oldChars newChars matrix (i - 1) (j - 1)
            (\<lparr>value = oldChars ! (i - 1), added = None, removed = None\<rparr> # result)
        else if j > 0 \<and> (i = 0 \<or> matrix ! i ! (j - 1) \<ge> matrix ! (i - 1) ! j) then
          backtrace oldChars newChars matrix i (j - 1)
            (\<lparr>value = newChars ! (j - 1), added = Some True, removed = None\<rparr> # result)
        else if i > 0 \<and> (j = 0 \<or> matrix ! i ! (j - 1) < matrix ! (i - 1) ! j) then
          backtrace oldChars newChars matrix (i - 1) j
            (\<lparr>value = oldChars ! (i - 1), added = None, removed = Some True\<rparr> # result)
        else backtrace oldChars newChars matrix i j result
      else result)"
  by pat_completeness auto
termination
  by (relation "measure (\<lambda>(oldChars, newChars, matrix, i, j, result). i + j)") auto

declare backtrace.simps [simp del]

text \<open>The array \<open>result\<close> when the \<open>while\<close> loop has ended: one span for each step.\<close>

definition editScript :: "jsstring \<Rightarrow> jsstring \<Rightarrow> span list" where
  "editScript oldStr newStr =
     (let oldChars = arrayFrom oldStr;
          newChars = arrayFrom newStr;
          matrix = lcsMatrix oldChars newChars
      in backtrace oldChars newChars matrix (length oldChars) (length newChars) [])"

text \<open>The body of the last loop: the span joins the last run or starts a new one.\<close>

definition coalesceStep :: "span list \<Rightarrow> span \<Rightarrow> span list" where
  "coalesceStep coalesced current =
     (let last = coalesced ! (length coalesced - 1)
      in if added last = added current \<and> removed last = removed current
         then coalesced[length coalesced - 1 := last\<lparr>value := value last @ value current\<rparr>]
         else coalesced @ [current])"

definition diffStrings :: "jsstring \<Rightarrow> jsstring \<Rightarrow> span list" where
  "diffStrings oldStr newStr =
     (let result = editScript oldStr newStr
      in if length result = 0 then []
         else foldl (\<lambda>coalesced k. coalesceStep coalesced (result ! k))
                [result ! 0] [1..<length result])"


section \<open>The specification's notions\<close>

subsection \<open>Account numbers\<close>

text \<open>
  The rule in the words of the specification: delete every character that is not an ASCII
  letter or digit, upper-case the rest; no match when either normalised value is empty, a
  match when they are equal, and otherwise a match exactly when the longer one ends with the
  shorter one.
\<close>

definition isAsciiAlnum :: "code_unit \<Rightarrow> bool" where
  "isAsciiAlnum c \<longleftrightarrow>
     (0x41 \<le> c \<and> c \<le> 0x5A) \<or> (0x61 \<le> c \<and> c \<le> 0x7A) \<or> (0x30 \<le> c \<and> c \<le> 0x39)"

definition normalizeAccount :: "jsstring \<Rightarrow> jsstring" where
  "normalizeAccount s = map asciiUpper (filter isAsciiAlnum s)"

definition accountRule :: "jsstring \<Rightarrow> jsstring \<Rightarrow> bool" where
  "accountRule acc1 acc2 =
     (let n1 = normalizeAccount acc1; n2 = normalizeAccount acc2
      in if n1 = [] \<or> n2 = [] then False
         else if n1 = n2 then True
         else if length n2 \<le> length n1 then suffix n2 n1
         else suffix n1 n2)"

subsection \<open>Edit distance\<close>

text \<open>
  \<open>editsTo a b n\<close>: \<open>n\<close> insertions, deletions and substitutions of one character, each
  of cost one, turn \<open>a\<close> into \<open>b\<close>. The two strings are aligned from their ends: the last
  characters are kept (when equal), one is substituted for the other, the last character of
  \<open>a\<close> is deleted, or the last character of \<open>b\<close> is inserted. The Levenshtein distance is
  the least such \<open>n\<close>.
\<close>

inductive editsTo :: "'a list \<Rightarrow> 'a list \<Rightarrow> nat \<Rightarrow> bool" where
  nothing: "editsTo [] [] 0"
| keep: "editsTo a b n \<Longrightarrow> editsTo (a @ [x]) (b @ [x]) n"
| substitute: "editsTo a b n \<Longrightarrow> editsTo (a @ [x]) (b @ [y]) (Suc n)"
| delete: "editsTo a b n \<Longrightarrow> editsTo (a @ [x]) b (Suc n)"
| insert: "editsTo a b n \<Longrightarrow> editsTo a (b @ [y]) (Suc n)"

definition isLevenshteinDistance :: "'a list \<Rightarrow> 'a list \<Rightarrow> nat \<Rightarrow> bool" where
  "isLevenshteinDistance a b d \<longleftrightarrow> editsTo a b d \<and> (\<forall>n. editsTo a b n \<longrightarrow> d \<le> n)"

text \<open>
  The recurrence of the dynamic programme: \<open>lev a b i j\<close> is the distance between the first
  \<open>i\<close> characters of \<open>a\<close> and the first \<open>j\<close> characters of \<open>b\<close>.
\<close>

fun lev :: "'a list \<Rightarrow> 'a list \<Rightarrow> nat \<Rightarrow> nat \<Rightarrow> nat" where
  "lev a b 0 j = j"
| "lev a b (Suc i) 0 = Suc i"
| "lev a b (Suc i) (Suc j) =
     min3 (lev a b i (Suc j) + 1) (lev a b (Suc i) j + 1)
          (lev a b i j + (if a ! i = b ! j then 0 else 1))"

definition levenshtein :: "'a list \<Rightarrow> 'a list \<Rightarrow> nat" where
  "levenshtein a b = lev a b (length a) (length b)"

subsection \<open>Other fields\<close>

text \<open>Lower-case, then delete white space, dots and hyphens.\<close>

definition normalizeOther :: "(jsstring \<Rightarrow> jsstring) \<Rightarrow> jsstring \<Rightarrow> jsstring" where
  "normalizeOther unicodeLower s =
     filter (\<lambda>c. \<not> isWhiteSpace c \<and> c \<noteq> 0x2E \<and> c \<noteq> 0x2D) (toLowerCase unicodeLower s)"

subsection \<open>Spans and common subsequences\<close>

text \<open>
  A span is tagged added (removed) when its property \<open>added\<close> (\<open>removed\<close>) is \<open>true\<close>, as
  the display reads it; it is unchanged when it is tagged neither.
\<close>

definition isAdded :: "span \<Rightarrow> bool" where
  "isAdded s \<longleftrightarrow> added s = Some True"

definition isRemoved :: "span \<Rightarrow> bool" where
  "isRemoved s \<longleftrightarrow> removed s = Some True"

definition isUnchanged :: "span \<Rightarrow> bool" where
  "isUnchanged s \<longleftrightarrow> \<not> isAdded s \<and> \<not> isRemoved s"

datatype classification = Unchanged | Added | Removed | AddedAndRemoved

definition classify :: "span \<Rightarrow> classification" where
  "classify s =
     (if isAdded s then (if isRemoved s then AddedAndRemoved else Added)
      else if isRemoved s then Removed else Unchanged)"

text \<open>\<open>k\<close> is the length of a longest common subsequence of \<open>xs\<close> and \<open>ys\<close>.\<close>

definition isLcsLength :: "'a list \<Rightarrow> 'a list \<Rightarrow> nat \<Rightarrow> bool" where
  "isLcsLength xs ys k \<longleftrightarrow>
     (\<exists>zs. subseq zs xs \<and> subseq zs ys \<and> length zs = k) \<and>
     (\<forall>zs. subseq zs xs \<and> subseq zs ys \<longrightarrow> length zs \<le> k)"

text \<open>
  The recurrence of the table: \<open>lcsLen xs ys i j\<close> for the first \<open>i\<close> elements of \<open>xs\<close> and
  the first \<open>j\<close> elements of \<open>ys\<close>.
\<close>

fun lcsLen :: "'a list \<Rightarrow> 'a list \<Rightarrow> nat \<Rightarrow> nat \<Rightarrow> nat" where
  "lcsLen xs ys 0 j = 0"
| "lcsLen xs ys (Suc i) 0 = 0"
| "lcsLen xs ys (Suc i) (Suc j) =
     (if xs ! i = ys ! j then lcsLen xs ys i j + 1
      else max (lcsLen xs ys i (Suc j)) (lcsLen xs ys (Suc i) j))"


section \<open>Invariants of the loops\<close>

text \<open>A table of \<open>R\<close> rows of \<open>C\<close> cells.\<close>

definition shape :: "'a list list \<Rightarrow> nat \<Rightarrow> nat \<Rightarrow> bool" where
  "shape m R C \<longleftrightarrow> length m = R \<and> (\<forall>r<R. length (m ! r) = C)"

text \<open>
  The cells that hold their final value while row \<open>i\<close> is filled up to column \<open>k\<close>, in a
  table with rows \<open>0..R\<close> and columns \<open>0..C\<close>.
\<close>

definition tableDone :: "nat \<Rightarrow> nat \<Rightarrow> nat \<Rightarrow> nat \<Rightarrow> nat \<Rightarrow> nat \<Rightarrow> bool" where
  "tableDone R C i k r c \<longleftrightarrow>
     r \<le> R \<and> c \<le> C \<and> (r = 0 \<or> c = 0 \<or> r < i \<or> (r = i \<and> c \<le> k))"

definition levInv :: "jsstring \<Rightarrow> jsstring \<Rightarrow> nat \<Rightarrow> nat \<Rightarrow> nat option list list \<Rightarrow> bool" where
  "levInv a b j k m \<longleftrightarrow>
     shape m (length b + 1) (length a + 1) \<and>
     (\<forall>r c. tableDone (length b) (length a) j k r c \<longrightarrow> m ! r ! c = Some (lev a b c r))"

definition lcsInv ::
    "jsstring list \<Rightarrow> jsstring list \<Rightarrow> nat \<Rightarrow> nat \<Rightarrow> nat list list \<Rightarrow> bool" where
  "lcsInv oldChars newChars i k m \<longleftrightarrow>
     shape m (length oldChars + 1) (length newChars + 1) \<and>
     (\<forall>r c. tableDone (length oldChars) (length newChars) i k r c \<longrightarrow>
        m ! r ! c = lcsLen oldChars newChars r c)"

text \<open>
  A span as the \<open>while\<close> loop makes it: a value that is not empty, under one of the three
  pairs of tags.
\<close>

definition rawSpan :: "span \<Rightarrow> bool" where
  "rawSpan s \<longleftrightarrow>
     value s \<noteq> [] \<and>
     (added s = None \<and> removed s = None \<or>
      added s = Some True \<and> removed s = None \<or>
      added s = None \<and> removed s = Some True)"

definition tagsOf :: "span \<Rightarrow> bool option \<times> bool option" where
  "tagsOf s = (added s, removed s)"

section \<open>Properties of compareAccountNumbers\<close>

lemma set_classAZ09_image: "set classAZ09 = of_nat ` ({0x41..<0x5B} \<union> {0x30..<0x3A})"
  unfolding classAZ09_def by (simp only: set_map set_append set_upt)

lemma set_classAZ09:
  "a \<in> set classAZ09 \<longleftrightarrow> (0x41 \<le> a \<and> a \<le> 0x5A) \<or> (0x30 \<le> a \<and> a \<le> 0x39)"
proof
  assume "a \<in> set classAZ09"
  then obtain n :: nat where n: "a = of_nat n" "n \<in> {0x41..<0x5B} \<union> {0x30..<0x3A}"
    unfolding set_classAZ09_image by (rule imageE)
  then have "unat a = n"
    by (auto simp: unat_of_nat)
  with n(2) show "(0x41 \<le> a \<and> a \<le> 0x5A) \<or> (0x30 \<le> a \<and> a \<le> 0x39)"
    by (auto simp: word_le_nat_alt)
next
  assume "(0x41 \<le> a \<and> a \<le> 0x5A) \<or> (0x30 \<le> a \<and> a \<le> 0x39)"
  then have "unat a \<in> {0x41..<0x5B} \<union> {0x30..<0x3A}"
    by (auto simp: word_le_nat_alt)
  then have "of_nat (unat a) \<in> set classAZ09"
    unfolding set_classAZ09_image by (rule imageI)
  then show "a \<in> set classAZ09"
    by simp
qed

lemma canonicalize_ascii:
  assumes "ch < 128"
  shows "canonicalize unicodeUpper ch = asciiUpper ch"
proof -
  from assms have "\<not> 128 \<le> ch"
    by (simp add: not_le)
  with assms show ?thesis
    by (simp add: canonicalize_def toUpperCase_def isAscii_def Let_def)
qed

lemma canonicalize_non_ascii: "128 \<le> ch \<Longrightarrow> 128 \<le> canonicalize unicodeUpper ch"
  by (auto simp: canonicalize_def Let_def not_less)

lemma asciiUpper_class: "a \<in> set classAZ09 \<Longrightarrow> asciiUpper a = a"
  unfolding set_classAZ09 asciiUpper_def by (auto simp: word_le_nat_alt)

lemma class_ascii: "a \<in> set classAZ09 \<Longrightarrow> a < 128"
  unfolding set_classAZ09 by (auto simp: word_le_nat_alt word_less_nat_alt)

lemma asciiUpper_in_class: "asciiUpper ch \<in> set classAZ09 \<longleftrightarrow> isAsciiAlnum ch"
  unfolding set_classAZ09 asciiUpper_def isAsciiAlnum_def
  by (auto simp: word_le_nat_alt unat_sub)

text \<open>The class accepts the ASCII letters and digits and nothing else.\<close>

lemma matchesAZ09_iff: "matchesAZ09 unicodeUpper ch \<longleftrightarrow> isAsciiAlnum ch"
proof -
  have *: "matchesAZ09 unicodeUpper ch \<longleftrightarrow> canonicalize unicodeUpper ch \<in> set classAZ09"
    unfolding matchesAZ09_def list_ex_iff
    by (auto simp: canonicalize_ascii class_ascii asciiUpper_class)
  show ?thesis
  proof (cases "ch < 128")
    case True
    then show ?thesis
      unfolding * by (simp add: canonicalize_ascii asciiUpper_in_class)
  next
    case False
    then have "128 \<le> canonicalize unicodeUpper ch"
      by (intro canonicalize_non_ascii) simp
    then have "canonicalize unicodeUpper ch \<notin> set classAZ09"
      using class_ascii [of "canonicalize unicodeUpper ch"] by auto
    moreover have "\<not> isAsciiAlnum ch"
      using False unfolding isAsciiAlnum_def by (auto simp: word_le_nat_alt word_less_nat_alt)
    ultimately show ?thesis
      unfolding * by simp
  qed
qed

lemma replaceNonAlnum_filter: "replaceNonAlnum unicodeUpper s = filter isAsciiAlnum s"
  unfolding replaceNonAlnum_def by (rule filter_cong) (simp_all add: matchesAZ09_iff)

lemma isAsciiAlnum_isAscii: "isAsciiAlnum c \<Longrightarrow> isAscii c"
proof -
  assume "isAsciiAlnum c"
  then have "c \<le> 0x7A"
    unfolding isAsciiAlnum_def by (auto elim: order_trans)
  moreover have "(0x7A :: code_unit) < 0x80"
    by simp
  ultimately show "isAscii c"
    unfolding isAscii_def by (rule order_le_less_trans)
qed

lemma list_all_isAscii_replaceNonAlnum: "list_all isAscii (replaceNonAlnum unicodeUpper s)"
  unfolding replaceNonAlnum_filter list_all_iff by (auto intro: isAsciiAlnum_isAscii)

lemma toUpperCase_replaceNonAlnum:
  "toUpperCase unicodeUpper (replaceNonAlnum unicodeUpper s) = normalizeAccount s"
  unfolding toUpperCase_def normalizeAccount_def
  using list_all_isAscii_replaceNonAlnum [of unicodeUpper s] by (simp add: replaceNonAlnum_filter)

lemma normalizeAccount_Nil: "normalizeAccount [] = []"
  by (simp add: normalizeAccount_def)

lemma endsWith_iff_suffix: "endsWith s t \<longleftrightarrow> suffix t s"
proof
  assume "endsWith s t"
  then have "s = take (length s - length t) s @ t"
    unfolding endsWith_def by (metis append_take_drop_id)
  then show "suffix t s"
    by (rule suffixI)
next
  assume "suffix t s"
  then obtain zs where "s = zs @ t"
    by (auto simp: suffix_def)
  then show "endsWith s t"
    by (simp add: endsWith_def)
qed

lemma suffix_same_length: "suffix xs ys \<Longrightarrow> length xs = length ys \<Longrightarrow> xs = ys"
  by (auto simp: suffix_def)

lemma compareAccountNumbers_eq_accountRule:
  "compareAccountNumbers unicodeUpper acc1 acc2 = accountRule acc1 acc2"
proof (cases "acc1 = [] \<or> acc2 = []")
  case True
  then show ?thesis
    by (auto simp: compareAccountNumbers_def accountRule_def normalizeAccount_Nil Let_def)
next
  case False
  then show ?thesis
    by (auto simp: compareAccountNumbers_def accountRule_def toUpperCase_replaceNonAlnum
        endsWith_iff_suffix Let_def dest: suffix_same_length)
qed

lemma accountRule_sym: "accountRule a b = accountRule b a"
  unfolding accountRule_def Let_def
  by (auto dest: suffix_same_length suffix_length_le)

text \<open>
  C2: \<open>compareAccountNumbers\<close> is the account rule of the specification: false when a
  normalised value is empty, true when the normalised values are equal, and otherwise
  true exactly when the longer normalised value ends with the shorter one. In particular
  \<open>compareAccountNumbers("", acc2)\<close> is false for every \<open>acc2\<close>, and
  \<open>compareAccountNumbers("001234567", "1234567")\<close> is true.
\<close>

theorem compareAccountNumbers_rule:
  "compareAccountNumbers unicodeUpper acc1 acc2 = accountRule acc1 acc2
   \<and> (\<forall>acc2. compareAccountNumbers unicodeUpper [] acc2 = False)
   \<and> compareAccountNumbers unicodeUpper (js ''001234567'') (js ''1234567'') = True"
proof (intro conjI allI)
  show "compareAccountNumbers unicodeUpper acc1 acc2 = accountRule acc1 acc2"
    by (rule compareAccountNumbers_eq_accountRule)
next
  fix acc2
  show "compareAccountNumbers unicodeUpper [] acc2 = False"
    by (simp add: compareAccountNumbers_def)
next
  have "accountRule (js ''001234567'') (js ''1234567'')"
    by (simp add: accountRule_def normalizeAccount_def js_def isAsciiAlnum_def
        asciiUpper_def suffix_to_prefix)
  then show "compareAccountNumbers unicodeUpper (js ''001234567'') (js ''1234567'') = True"
    by (simp add: compareAccountNumbers_eq_accountRule)
qed

text \<open>
  C10: \<open>compareAccountNumbers\<close> is symmetric in its two arguments.
\<close>

theorem compareAccountNumbers_symmetric:
  "compareAccountNumbers unicodeUpper a b = compareAccountNumbers unicodeUpper b a"
  by (simp add: compareAccountNumbers_eq_accountRule accountRule_sym)

section \<open>Loops over index ranges and tables\<close>

lemma foldl_upt_invariant:
  assumes "P lo x"
    and "\<And>i y. lo \<le> i \<Longrightarrow> i < hi \<Longrightarrow> P i y \<Longrightarrow> P (Suc i) (f y i)"
    and "lo \<le> hi"
  shows "P hi (foldl f x [lo..<hi])"
  using assms(3,2)
proof (induction hi)
  case 0
  with assms(1) show ?case by simp
next
  case (Suc h)
  show ?case
  proof (cases "lo = Suc h")
    case True
    with assms(1) show ?thesis by simp
  next
    case False
    with Suc.prems(1) have le: "lo \<le> h" by simp
    have "P h (foldl f x [lo..<h])"
      using le Suc.prems(2) by (intro Suc.IH) auto
    then have "P (Suc h) (f (foldl f x [lo..<h]) h)"
      using le by (intro Suc.prems(2)) auto
    with le show ?thesis by simp
  qed
qed

lemma shape_setCell: "shape m R C \<Longrightarrow> shape (setCell m r c v) R C"
proof (cases "r < length m")
  case True
  assume "shape m R C"
  with True show ?thesis
    by (auto simp: shape_def setCell_def nth_list_update)
next
  case False
  assume "shape m R C"
  with False show ?thesis
    by (simp add: setCell_def list_update_beyond not_less)
qed

lemma nth_setCell:
  "shape m R C \<Longrightarrow> r < R \<Longrightarrow> c < C \<Longrightarrow> r' < R \<Longrightarrow>
   setCell m r c v ! r' ! c' = (if r' = r \<and> c' = c then v else m ! r' ! c')"
  by (auto simp: shape_def setCell_def nth_list_update)

lemma shape_replicate: "shape (replicate R (replicate C x)) R C"
  by (simp add: shape_def)

section \<open>The distance table\<close>

lemma lev_col0 [simp]: "lev a b i 0 = i"
  by (cases i) simp_all

lemma levCell_step:
  assumes inv: "levInv a b j (i - 1) m" and j: "1 \<le> j" "j \<le> length b"
    and i: "1 \<le> i" "i \<le> length a"
  shows "levInv a b j i (levCell a b j m i)"
proof -
  from j i obtain j' i' where ji: "j = Suc j'" "i = Suc i'"
    by (metis One_nat_def Suc_le_D)
  have sh: "shape m (length b + 1) (length a + 1)"
    using inv by (simp add: levInv_def)
  have known: "\<And>r c. tableDone (length b) (length a) j (i - 1) r c \<Longrightarrow> m ! r ! c = Some (lev a b c r)"
    using inv by (simp add: levInv_def)
  have c1: "m ! j ! (i - 1) = Some (lev a b i' j)"
    using j i ji by (subst known) (auto simp: tableDone_def)
  have c2: "m ! (j - 1) ! i = Some (lev a b i j')"
    using j i ji by (subst known) (auto simp: tableDone_def)
  have c3: "m ! (j - 1) ! (i - 1) = Some (lev a b i' j')"
    using j i ji by (subst known) (auto simp: tableDone_def)
  have new: "levCell a b j m i = setCell m j i (Some (lev a b i j))"
    using c1 c2 c3 ji by (simp add: levCell_def toNumber_def Let_def)
  show ?thesis
    unfolding levInv_def new
  proof (intro conjI allI impI)
    show "shape (setCell m j i (Some (lev a b i j))) (length b + 1) (length a + 1)"
      using sh by (rule shape_setCell)
  next
    fix r c
    assume d: "tableDone (length b) (length a) j i r c"
    then have rc: "r \<le> length b" "c \<le> length a"
      by (simp_all add: tableDone_def)
    show "setCell m j i (Some (lev a b i j)) ! r ! c = Some (lev a b c r)"
    proof (cases "r = j \<and> c = i")
      case True
      then show ?thesis
        using j i by (simp add: nth_setCell [OF sh])
    next
      case False
      with d have "tableDone (length b) (length a) j (i - 1) r c"
        by (auto simp: tableDone_def)
      then have "m ! r ! c = Some (lev a b c r)"
        by (rule known)
      with False show ?thesis
        using j i rc by (auto simp: nth_setCell [OF sh])
    qed
  qed
qed

lemma levRow_step:
  assumes inv: "levInv a b j 0 m" and j: "1 \<le> j" "j \<le> length b"
  shows "levInv a b (Suc j) 0 (levRow a b m j)"
proof -
  have "levInv a b j (length a + 1 - 1) (foldl (levCell a b j) m [1..<length a + 1])"
  proof (rule foldl_upt_invariant [where P = "\<lambda>i. levInv a b j (i - 1)"])
    show "levInv a b j (1 - 1) m"
      using inv by simp
  next
    fix i y
    assume "1 \<le> i" "i < length a + 1" "levInv a b j (i - 1) y"
    then show "levInv a b j (Suc i - 1) (levCell a b j y i)"
      using levCell_step [of a b j i y] j by simp
  qed simp
  then have row: "levInv a b j (length a) (levRow a b m j)"
    by (simp add: levRow_def)
  have "tableDone (length b) (length a) j (length a) r c" if "tableDone (length b) (length a) (Suc j) 0 r c" for r c
    using that by (auto simp: tableDone_def)
  with row show ?thesis
    unfolding levInv_def by blast
qed

lemma levInit:
  fixes a b :: jsstring
  defines "m0 \<equiv> replicate (length b + 1) (replicate (length a + 1) None)"
  defines "m1 \<equiv> foldl (\<lambda>matrix i. setCell matrix 0 i (Some i)) m0 [0..<length a + 1]"
  defines "m2 \<equiv> foldl (\<lambda>matrix j. setCell matrix (j + 1) 0 (Some (j + 1))) m1 [0..<length b]"
  shows "levInv a b 1 0 m2"
proof -
  let ?R = "length b + 1" and ?C = "length a + 1"
  have 1: "shape m1 ?R ?C \<and> (\<forall>c<length a + 1. m1 ! 0 ! c = Some c)"
    unfolding m1_def
  proof (rule foldl_upt_invariant [where P = "\<lambda>k m. shape m ?R ?C \<and> (\<forall>c<k. m ! 0 ! c = Some c)"])
    have "shape m0 ?R ?C"
      unfolding m0_def by (rule shape_replicate)
    then show "shape m0 ?R ?C \<and> (\<forall>c<0. m0 ! 0 ! c = Some c)"
      by simp
  next
    fix i y
    assume i: "i < length a + 1" and y: "shape y ?R ?C \<and> (\<forall>c<i. y ! 0 ! c = Some c)"
    then have sh: "shape y ?R ?C"
      by simp
    have "setCell y 0 i (Some i) ! 0 ! c = Some c" if "c < Suc i" for c
      using that i y by (cases "c = i") (simp_all add: nth_setCell [OF sh])
    with i y show "shape (setCell y 0 i (Some i)) ?R ?C \<and>
        (\<forall>c<Suc i. setCell y 0 i (Some i) ! 0 ! c = Some c)"
      by (simp add: shape_setCell)
  qed simp
  have 2: "shape m2 ?R ?C \<and> (\<forall>c<length a + 1. m2 ! 0 ! c = Some c) \<and>
      (\<forall>r. 1 \<le> r \<and> r < length b + 1 \<longrightarrow> m2 ! r ! 0 = Some r)"
    unfolding m2_def
  proof (rule foldl_upt_invariant [where P = "\<lambda>k m. shape m ?R ?C \<and>
        (\<forall>c<length a + 1. m ! 0 ! c = Some c) \<and> (\<forall>r. 1 \<le> r \<and> r < k + 1 \<longrightarrow> m ! r ! 0 = Some r)"])
    show "shape m1 ?R ?C \<and> (\<forall>c<length a + 1. m1 ! 0 ! c = Some c) \<and>
        (\<forall>r. 1 \<le> r \<and> r < 0 + 1 \<longrightarrow> m1 ! r ! 0 = Some r)"
      using 1 by simp
  next
    fix j y
    assume j: "j < length b" and y: "shape y ?R ?C \<and> (\<forall>c<length a + 1. y ! 0 ! c = Some c) \<and>
        (\<forall>r. 1 \<le> r \<and> r < j + 1 \<longrightarrow> y ! r ! 0 = Some r)"
    then have sh: "shape y ?R ?C"
      by simp
    have "setCell y (j + 1) 0 (Some (j + 1)) ! r ! 0 = Some r" if "1 \<le> r" "r < Suc j + 1" for r
      using that j y by (cases "r = j + 1") (simp_all add: nth_setCell [OF sh])
    with j y show "shape (setCell y (j + 1) 0 (Some (j + 1))) ?R ?C \<and>
        (\<forall>c<length a + 1. setCell y (j + 1) 0 (Some (j + 1)) ! 0 ! c = Some c) \<and>
        (\<forall>r. 1 \<le> r \<and> r < Suc j + 1 \<longrightarrow> setCell y (j + 1) 0 (Some (j + 1)) ! r ! 0 = Some r)"
      by (simp add: shape_setCell nth_setCell [OF sh])
  qed simp
  show ?thesis
    unfolding levInv_def
  proof (intro conjI allI impI)
    fix r c
    assume "tableDone (length b) (length a) 1 0 r c"
    then have "r \<le> length b" "c \<le> length a" "r = 0 \<or> c = 0"
      by (auto simp: tableDone_def)
    then show "m2 ! r ! c = Some (lev a b c r)"
      using 2 by (cases "r = 0") auto
  qed (use 2 in simp)
qed

lemma calculateLevenshteinDistance_lev:
  "calculateLevenshteinDistance a b = Some (levenshtein a b)"
proof (cases "length a = 0 \<or> length b = 0")
  case True
  then show ?thesis
    by (auto simp: calculateLevenshteinDistance_def levenshtein_def)
next
  case False
  define m2 where "m2 = foldl (\<lambda>matrix j. setCell matrix (j + 1) 0 (Some (j + 1)))
      (foldl (\<lambda>matrix i. setCell matrix 0 i (Some i))
         (replicate (length b + 1) (replicate (length a + 1) None)) [0..<length a + 1])
      [0..<length b]"
  have "levInv a b 1 0 m2"
    unfolding m2_def by (rule levInit)
  have "levInv a b (length b + 1) 0 (foldl (levRow a b) m2 [1..<length b + 1])"
  proof (rule foldl_upt_invariant [where P = "\<lambda>j. levInv a b j 0"])
    show "levInv a b 1 0 m2" by fact
  next
    fix j y
    assume "1 \<le> j" "j < length b + 1" "levInv a b j 0 y"
    then show "levInv a b (Suc j) 0 (levRow a b y j)"
      by (intro levRow_step) auto
  qed simp
  then have "foldl (levRow a b) m2 [1..<length b + 1] ! length b ! length a
      = Some (lev a b (length a) (length b))"
    by (auto simp: levInv_def tableDone_def)
  with False show ?thesis
    by (simp add: calculateLevenshteinDistance_def levenshtein_def m2_def Let_def)
qed

lemma lev_sym: "lev a b i j = lev b a j i"
proof (induction a b i j rule: lev.induct)
  case (3 a b i j)
  then show ?case
    by (auto simp: min3_def min.commute min.left_commute eq_commute)
qed simp_all

lemma lev_same: "lev a a i i = 0"
  by (induction i) (simp_all add: min3_def)

section \<open>The recurrence is the edit distance\<close>

lemma lev_cong:
  assumes "\<And>k. k < i \<Longrightarrow> a ! k = a' ! k" "\<And>k. k < j \<Longrightarrow> b ! k = b' ! k"
  shows "lev a b i j = lev a' b' i j"
  using assms
proof (induction a b i j rule: lev.induct)
  case (3 a b i j)
  have "lev a b i (Suc j) = lev a' b' i (Suc j)" "lev a b (Suc i) j = lev a' b' (Suc i) j"
      "lev a b i j = lev a' b' i j"
    using "3.prems" by (auto intro!: "3.IH")
  moreover have "a ! i = a' ! i" "b ! j = b' ! j"
    using "3.prems" by simp_all
  ultimately show ?case
    by simp
qed simp_all

lemma levenshtein_Nil [simp]: "levenshtein [] b = length b" "levenshtein a [] = length a"
  by (simp_all add: levenshtein_def)

lemma levenshtein_snoc:
  "levenshtein (a @ [x]) (b @ [y]) =
     min3 (levenshtein a (b @ [y]) + 1) (levenshtein (a @ [x]) b + 1)
          (levenshtein a b + (if x = y then 0 else 1))"
proof -
  have 1: "lev (a @ [x]) (b @ [y]) (length a) (Suc (length b)) = lev a (b @ [y]) (length a) (Suc (length b))"
    by (rule lev_cong) (simp_all add: nth_append)
  have 2: "lev (a @ [x]) (b @ [y]) (Suc (length a)) (length b) = lev (a @ [x]) b (Suc (length a)) (length b)"
    by (rule lev_cong) (simp_all add: nth_append)
  have 3: "lev (a @ [x]) (b @ [y]) (length a) (length b) = lev a b (length a) (length b)"
    by (rule lev_cong) (simp_all add: nth_append)
  show ?thesis
    by (simp add: levenshtein_def 1 2 3)
qed

lemma min3_le: "min3 x y z \<le> x" "min3 x y z \<le> y" "min3 x y z \<le> z"
  by (simp_all add: min3_def)

lemma min3_cases: "min3 x y z = x \<or> min3 x y z = y \<or> min3 x y z = z"
  by (auto simp: min3_def min_def)

lemma levenshtein_delete: "levenshtein (a @ [x]) b \<le> levenshtein a b + 1"
proof (cases b rule: rev_cases)
  case Nil
  then show ?thesis by simp
next
  case (snoc b' y)
  show ?thesis
    unfolding snoc levenshtein_snoc by (rule min3_le)
qed

lemma levenshtein_insert: "levenshtein a (b @ [y]) \<le> levenshtein a b + 1"
proof (cases a rule: rev_cases)
  case Nil
  then show ?thesis by simp
next
  case (snoc a' x)
  show ?thesis
    unfolding snoc levenshtein_snoc by (rule min3_le)
qed

lemma editsTo_lower: "editsTo a b n \<Longrightarrow> levenshtein a b \<le> n"
proof (induction rule: editsTo.induct)
  case nothing
  then show ?case by simp
next
  case (keep a b n x)
  have "levenshtein (a @ [x]) (b @ [x]) \<le> levenshtein a b + (if x = x then 0 else 1)"
    unfolding levenshtein_snoc by (rule min3_le)
  with keep.IH show ?case by simp
next
  case (substitute a b n x y)
  have "levenshtein (a @ [x]) (b @ [y]) \<le> levenshtein a b + (if x = y then 0 else 1)"
    unfolding levenshtein_snoc by (rule min3_le)
  with substitute.IH show ?case by (simp split: if_splits)
next
  case (delete a b n x)
  with levenshtein_delete [of a x b] show ?case by simp
next
  case (insert a b n y)
  with levenshtein_insert [of a b y] show ?case by simp
qed

lemma editsTo_Nil_left: "editsTo [] b (length b)"
  by (induction b rule: rev_induct) (auto intro: editsTo.intros)

lemma editsTo_Nil_right: "editsTo a [] (length a)"
  by (induction a rule: rev_induct) (auto intro: editsTo.intros)

lemma editsTo_levenshtein: "editsTo a b (levenshtein a b)"
proof (induction "length a + length b" arbitrary: a b rule: less_induct)
  case less
  show ?case
  proof (cases a rule: rev_cases)
    case Nil
    then show ?thesis by (simp add: editsTo_Nil_left)
  next
    case a: (snoc a' x)
    show ?thesis
    proof (cases b rule: rev_cases)
      case Nil
      then show ?thesis by (simp add: editsTo_Nil_right)
    next
      case b: (snoc b' y)
      have del: "editsTo (a' @ [x]) (b' @ [y]) (levenshtein a' (b' @ [y]) + 1)"
        using less [of a' "b' @ [y]"] a b by (auto intro: editsTo.delete)
      have ins: "editsTo (a' @ [x]) (b' @ [y]) (levenshtein (a' @ [x]) b' + 1)"
        using less [of "a' @ [x]" b'] a b by (auto intro: editsTo.insert)
      have sub: "editsTo (a' @ [x]) (b' @ [y]) (levenshtein a' b' + (if x = y then 0 else 1))"
        using less [of a' b'] a b by (auto intro: editsTo.keep editsTo.substitute)
      from del ins sub show ?thesis
        unfolding a b levenshtein_snoc
        using min3_cases [of "levenshtein a' (b' @ [y]) + 1" "levenshtein (a' @ [x]) b' + 1"
            "levenshtein a' b' + (if x = y then 0 else 1)"]
        by metis
    qed
  qed
qed

lemma levenshtein_isLevenshteinDistance: "isLevenshteinDistance a b (levenshtein a b)"
  unfolding isLevenshteinDistance_def by (simp add: editsTo_levenshtein editsTo_lower)

section \<open>Properties of calculateLevenshteinDistance and fuzzyMatch\<close>

lemma round64_0: "round64 0 = Finite 0"
  by (simp add: round64_def)

lemma round64_1: "round64 1 = Finite 1"
  by code_simp

text \<open>
  The rounding on known values: the literals \<open>0.7\<close> and \<open>0.8\<close>, and two differences that
  fall halfway between two binary64 values (\<open>1 - 0.3 = 0.7\<close> and
  \<open>1 - 1/3 = 0.6666666666666667\<close> in JavaScript, the latter above \<open>2/3\<close>).
\<close>

lemma round64_literals:
  "round64 (7 / 10) = Finite (6305039478318694 / 2 ^ 53)"
  "round64 (8 / 10) = Finite (7205759403792794 / 2 ^ 53)"
  by code_simp+

lemma round64_ties:
  "number_sub (Finite 1) (round64 (3 / 10)) = round64 (7 / 10)"
  "number_sub (Finite 1) (round64 (1 / 3)) = Finite (6004799503160662 / 2 ^ 53)"
  "round64 (2 / 3) = Finite (6004799503160661 / 2 ^ 53)"
  by code_simp+

lemma levenshtein_same: "levenshtein s s = 0"
  by (simp add: levenshtein_def lev_same)

lemma levenshtein_sym: "levenshtein a b = levenshtein b a"
  unfolding levenshtein_def by (rule lev_sym)

lemma fuzzyMatch_nonempty:
  assumes "str1 \<noteq> []" "str2 \<noteq> []"
  shows "fuzzyMatch str1 str2 tolerance =
    number_ge (number_sub (Finite 1)
      (number_div_nat (levenshtein str1 str2) (max (length str1) (length str2)))) tolerance"
proof -
  have "max (length str1) (length str2) \<noteq> 0"
    using assms by simp
  with assms show ?thesis
    by (simp add: fuzzyMatch_def calculateLevenshteinDistance_lev toNumber_def Let_def)
qed

text \<open>
  C3: \<open>fuzzyMatch\<close> is true when both strings are empty, false when exactly one is, and
  otherwise true exactly when \<open>1 - d / max(len1, len2) >= tolerance\<close>, the expression
  as JavaScript computes it, where \<open>d\<close> is what \<open>calculateLevenshteinDistance\<close> returns:
  the least number of insertions, deletions and substitutions of unit cost.
\<close>

theorem fuzzyMatch_rule:
  "\<exists>d. calculateLevenshteinDistance str1 str2 = Some d \<and>
       isLevenshteinDistance str1 str2 d \<and>
       fuzzyMatch str1 str2 tolerance =
         (if str1 = [] \<and> str2 = [] then True
          else if str1 = [] \<or> str2 = [] then False
          else number_ge
                 (number_sub (Finite 1) (number_div_nat d (max (length str1) (length str2))))
                 tolerance)"
proof (intro exI conjI)
  show "calculateLevenshteinDistance str1 str2 = Some (levenshtein str1 str2)"
    by (rule calculateLevenshteinDistance_lev)
  show "isLevenshteinDistance str1 str2 (levenshtein str1 str2)"
    by (rule levenshtein_isLevenshteinDistance)
  show "fuzzyMatch str1 str2 tolerance =
      (if str1 = [] \<and> str2 = [] then True
       else if str1 = [] \<or> str2 = [] then False
       else number_ge (number_sub (Finite 1)
              (number_div_nat (levenshtein str1 str2) (max (length str1) (length str2))))
              tolerance)"
  proof (cases "str1 = [] \<or> str2 = []")
    case True
    then show ?thesis
      by (auto simp: fuzzyMatch_def)
  next
    case False
    then show ?thesis
      by (simp add: fuzzyMatch_nonempty)
  qed
qed

theorem fuzzyMatch_rule_witness:
  "\<exists>d. calculateLevenshteinDistance (js ''ab'') (js ''b'') = Some d \<and> d \<le> 1 \<and>
       fuzzyMatch (js ''ab'') (js ''b'') (round64 (7 / 10)) =
         number_ge (number_sub (Finite 1) (number_div_nat d 2)) (round64 (7 / 10))"
proof -
  have ne: "js ''ab'' \<noteq> []" "js ''b'' \<noteq> []"
      and len: "max (length (js ''ab'')) (length (js ''b'')) = 2"
    by (simp_all add: js_def)
  from fuzzyMatch_rule [of "js ''ab''" "js ''b''" "round64 (7 / 10)"]
  obtain d where d: "calculateLevenshteinDistance (js ''ab'') (js ''b'') = Some d"
      "isLevenshteinDistance (js ''ab'') (js ''b'') d"
      "fuzzyMatch (js ''ab'') (js ''b'') (round64 (7 / 10)) =
         number_ge (number_sub (Finite 1) (number_div_nat d 2)) (round64 (7 / 10))"
    unfolding len using ne by auto
  have "editsTo ([] @ [0x61 :: code_unit]) [] (Suc 0)"
    by (intro editsTo.delete editsTo.nothing)
  then have "editsTo (([] @ [0x61]) @ [0x62 :: code_unit]) ([] @ [0x62]) (Suc 0)"
    by (rule editsTo.keep)
  then have "editsTo (js ''ab'') (js ''b'') 1"
    by (simp add: js_def)
  with d(2) have "d \<le> 1"
    unfolding isLevenshteinDistance_def by blast
  with d(1,3) show ?thesis
    by blast
qed

text \<open>
  C8: \<open>calculateLevenshteinDistance(a, b) = calculateLevenshteinDistance(b, a)\<close> for all
  strings \<open>a\<close> and \<open>b\<close>.
\<close>

theorem calculateLevenshteinDistance_symmetric:
  "calculateLevenshteinDistance a b = calculateLevenshteinDistance b a"
  by (simp add: calculateLevenshteinDistance_lev levenshtein_sym)

text \<open>
  C9: \<open>fuzzyMatch(s, s, t)\<close> is true for every string \<open>s\<close> and every tolerance \<open>t <= 1\<close>.
\<close>

theorem fuzzyMatch_same:
  assumes "number_ge (Finite 1) t"
  shows "fuzzyMatch s s t"
proof (cases "s = []")
  case True
  then show ?thesis
    by (simp add: fuzzyMatch_def)
next
  case False
  then have "number_div_nat 0 (length s) = Finite 0"
    by (simp add: number_div_nat_def round64_0)
  with False assms show ?thesis
    by (simp add: fuzzyMatch_nonempty levenshtein_same round64_1)
qed

theorem fuzzyMatch_same_witness:
  "number_ge (Finite 1) (round64 (7 / 10)) \<and>
   fuzzyMatch (js ''abc'') (js ''abc'') (round64 (7 / 10))"
proof -
  have h: "number_ge (Finite 1) (round64 (7 / 10))"
    by (simp add: round64_literals)
  from h fuzzyMatch_same [OF h] show ?thesis
    by simp
qed


section \<open>Properties of the comparison of one field\<close>

lemma orEmpty_Some: "orEmpty (Some s) = s"
  by (simp add: orEmpty_def)

lemma replaceSeparators_eq_normalizeOther:
  "replaceSeparators (toLowerCase unicodeLower s) = normalizeOther unicodeLower s"
  by (simp add: replaceSeparators_def normalizeOther_def isSeparator_def)

text \<open>
  C4: the match flag of a field is \<open>fuzzyMatch\<close> with tolerance 0.7 for \<open>beneficiaryName\<close>
  and \<open>bankName\<close>, \<open>fuzzyMatch\<close> with tolerance 0.8 for \<open>goodsDescription\<close>,
  \<open>compareAccountNumbers\<close> for \<open>accountNumber\<close>, and for every other field the equality of
  the two values after lower-casing and deleting white space, dots and hyphens. The two
  values are those of the records, the empty string for a missing one.
\<close>

theorem compareField_match:
  "value1 (compareField unicodeUpper unicodeLower data1 data2 key) = orEmpty (data1 key) \<and>
   value2 (compareField unicodeUpper unicodeLower data1 data2 key) = orEmpty (data2 key) \<and>
   match (compareField unicodeUpper unicodeLower data1 data2 key) =
     (let val1 = orEmpty (data1 key); val2 = orEmpty (data2 key)
      in if key = ''beneficiaryName'' \<or> key = ''bankName''
           then fuzzyMatch val1 val2 (round64 (7 / 10))
         else if key = ''goodsDescription''
           then fuzzyMatch val1 val2 (round64 (8 / 10))
         else if key = ''accountNumber''
           then compareAccountNumbers unicodeUpper val1 val2
         else normalizeOther unicodeLower val1 = normalizeOther unicodeLower val2)"
  by (simp add: compareField_def Let_def orEmpty_Some replaceSeparators_eq_normalizeOther)

section \<open>The walk back through the table\<close>

lemma concat_arrayFrom: "concat (arrayFrom s) = s"
  by (induction s rule: arrayFrom.induct) simp_all

lemma arrayFrom_nonempty: "[] \<notin> set (arrayFrom s)"
  by (induction s rule: arrayFrom.induct) simp_all

text \<open>
  A property of the loop's result follows from the property being passed down each of the
  three moves.
\<close>

lemma backtrace_rule [case_names stop same add rem]:
  assumes stop: "\<And>r. Q 0 0 r r"
    and same: "\<And>i j r res. 0 < i \<Longrightarrow> 0 < j \<Longrightarrow> oldChars ! (i - 1) = newChars ! (j - 1) \<Longrightarrow>
        Q (i - 1) (j - 1) (\<lparr>value = oldChars ! (i - 1), added = None, removed = None\<rparr> # r) res \<Longrightarrow>
        Q i j r res"
    and add: "\<And>i j r res. 0 < j \<Longrightarrow> i = 0 \<or> oldChars ! (i - 1) \<noteq> newChars ! (j - 1) \<Longrightarrow>
        i = 0 \<or> matrix ! (i - 1) ! j \<le> matrix ! i ! (j - 1) \<Longrightarrow>
        Q i (j - 1) (\<lparr>value = newChars ! (j - 1), added = Some True, removed = None\<rparr> # r) res \<Longrightarrow>
        Q i j r res"
    and rem: "\<And>i j r res. 0 < i \<Longrightarrow> j = 0 \<or> oldChars ! (i - 1) \<noteq> newChars ! (j - 1) \<Longrightarrow>
        j = 0 \<or> matrix ! i ! (j - 1) < matrix ! (i - 1) ! j \<Longrightarrow>
        Q (i - 1) j (\<lparr>value = oldChars ! (i - 1), added = None, removed = Some True\<rparr> # r) res \<Longrightarrow>
        Q i j r res"
  shows "Q i j r (backtrace oldChars newChars matrix i j r)"
proof (induction "i + j" arbitrary: i j r rule: less_induct)
  case less
  note IH = less.hyps
  let ?res = "backtrace oldChars newChars matrix i j r"
  consider (stop) "i = 0" "j = 0"
    | (same) "0 < i" "0 < j" "oldChars ! (i - 1) = newChars ! (j - 1)"
    | (add) "0 < j" "i = 0 \<or> oldChars ! (i - 1) \<noteq> newChars ! (j - 1)"
        "i = 0 \<or> matrix ! (i - 1) ! j \<le> matrix ! i ! (j - 1)"
    | (rem) "0 < i" "j = 0 \<or> oldChars ! (i - 1) \<noteq> newChars ! (j - 1)"
        "j = 0 \<or> matrix ! i ! (j - 1) < matrix ! (i - 1) ! j"
    by (cases "i = 0"; cases "j = 0"; force)
  then show ?case
  proof cases
    case stop
    then have "?res = r"
      by (subst backtrace.simps) simp
    with stop assms(1) show ?thesis
      by simp
  next
    case same
    then have eq: "?res = backtrace oldChars newChars matrix (i - 1) (j - 1)
        (\<lparr>value = oldChars ! (i - 1), added = None, removed = None\<rparr> # r)"
      by (subst backtrace.simps) simp
    have "Q (i - 1) (j - 1) (\<lparr>value = oldChars ! (i - 1), added = None, removed = None\<rparr> # r)
        (backtrace oldChars newChars matrix (i - 1) (j - 1)
          (\<lparr>value = oldChars ! (i - 1), added = None, removed = None\<rparr> # r))"
      using same by (intro IH) auto
    with same show ?thesis
      unfolding eq by (rule assms(2))
  next
    case add
    then have eq: "?res = backtrace oldChars newChars matrix i (j - 1)
        (\<lparr>value = newChars ! (j - 1), added = Some True, removed = None\<rparr> # r)"
      by (subst backtrace.simps) auto
    have "Q i (j - 1) (\<lparr>value = newChars ! (j - 1), added = Some True, removed = None\<rparr> # r)
        (backtrace oldChars newChars matrix i (j - 1)
          (\<lparr>value = newChars ! (j - 1), added = Some True, removed = None\<rparr> # r))"
      using add by (intro IH) auto
    with add show ?thesis
      unfolding eq by (rule assms(3))
  next
    case rem
    then have eq: "?res = backtrace oldChars newChars matrix (i - 1) j
        (\<lparr>value = oldChars ! (i - 1), added = None, removed = Some True\<rparr> # r)"
      by (subst backtrace.simps) auto
    have "Q (i - 1) j (\<lparr>value = oldChars ! (i - 1), added = None, removed = Some True\<rparr> # r)
        (backtrace oldChars newChars matrix (i - 1) j
          (\<lparr>value = oldChars ! (i - 1), added = None, removed = Some True\<rparr> # r))"
      using rem by (intro IH) auto
    with rem show ?thesis
      unfolding eq by (rule assms(4))
  qed
qed

lemma take_snoc: "0 < j \<Longrightarrow> j \<le> length xs \<Longrightarrow> take j xs = take (j - 1) xs @ [xs ! (j - 1)]"
  by (cases j) (simp_all add: take_Suc_conv_app_nth)

lemma backtrace_new:
  assumes "j \<le> length newChars"
  shows "map value (filter (\<lambda>s. \<not> isRemoved s) (backtrace oldChars newChars matrix i j r))
    = take j newChars @ map value (filter (\<lambda>s. \<not> isRemoved s) r)"
proof -
  have "j \<le> length newChars \<longrightarrow>
      map value (filter (\<lambda>s. \<not> isRemoved s) (backtrace oldChars newChars matrix i j r))
      = take j newChars @ map value (filter (\<lambda>s. \<not> isRemoved s) r)"
    by (rule backtrace_rule [where Q = "\<lambda>i j r res. j \<le> length newChars \<longrightarrow>
          map value (filter (\<lambda>s. \<not> isRemoved s) res)
          = take j newChars @ map value (filter (\<lambda>s. \<not> isRemoved s) r)"])
      (auto simp: take_snoc isRemoved_def)
  with assms show ?thesis
    by simp
qed

lemma backtrace_old:
  assumes "i \<le> length oldChars"
  shows "map value (filter (\<lambda>s. \<not> isAdded s) (backtrace oldChars newChars matrix i j r))
    = take i oldChars @ map value (filter (\<lambda>s. \<not> isAdded s) r)"
proof -
  have "i \<le> length oldChars \<longrightarrow>
      map value (filter (\<lambda>s. \<not> isAdded s) (backtrace oldChars newChars matrix i j r))
      = take i oldChars @ map value (filter (\<lambda>s. \<not> isAdded s) r)"
    by (rule backtrace_rule [where Q = "\<lambda>i j r res. i \<le> length oldChars \<longrightarrow>
          map value (filter (\<lambda>s. \<not> isAdded s) res)
          = take i oldChars @ map value (filter (\<lambda>s. \<not> isAdded s) r)"])
      (auto simp: take_snoc isAdded_def)
  with assms show ?thesis
    by simp
qed

lemma nth_pred_nonempty:
  assumes "[] \<notin> set xs" "0 < i" "i \<le> length xs"
  shows "xs ! (i - Suc 0) \<noteq> []"
proof -
  have "i - Suc 0 < length xs"
    using assms(2,3) by arith
  then have "xs ! (i - Suc 0) \<in> set xs"
    by (rule nth_mem)
  with assms(1) show ?thesis
    by metis
qed

lemma backtrace_rawSpan:
  assumes "i \<le> length oldChars" "j \<le> length newChars"
    and "[] \<notin> set oldChars" "[] \<notin> set newChars" "list_all rawSpan r"
  shows "list_all rawSpan (backtrace oldChars newChars matrix i j r)"
proof -
  note nth_old = nth_pred_nonempty [OF assms(3)] and nth_new = nth_pred_nonempty [OF assms(4)]
  have "i \<le> length oldChars \<longrightarrow> j \<le> length newChars \<longrightarrow> list_all rawSpan r \<longrightarrow>
      list_all rawSpan (backtrace oldChars newChars matrix i j r)"
    by (rule backtrace_rule [where Q = "\<lambda>i j r res. i \<le> length oldChars \<longrightarrow>
          j \<le> length newChars \<longrightarrow> list_all rawSpan r \<longrightarrow> list_all rawSpan res"])
      (auto simp: rawSpan_def nth_old nth_new)
  with assms show ?thesis
    by simp
qed

lemma lcsLen_col0 [simp]: "lcsLen xs ys i 0 = 0"
  by (cases i) simp_all

lemma lcsLen_step:
  "0 < i \<Longrightarrow> 0 < j \<Longrightarrow> lcsLen xs ys i j =
     (if xs ! (i - 1) = ys ! (j - 1) then lcsLen xs ys (i - 1) (j - 1) + 1
      else max (lcsLen xs ys (i - 1) j) (lcsLen xs ys i (j - 1)))"
  by (cases i; cases j) simp_all

lemma backtrace_unchanged:
  assumes table: "\<And>r c. r \<le> length oldChars \<Longrightarrow> c \<le> length newChars \<Longrightarrow>
      matrix ! r ! c = lcsLen oldChars newChars r c"
    and "i \<le> length oldChars" "j \<le> length newChars"
  shows "length (filter isUnchanged (backtrace oldChars newChars matrix i j r))
    = lcsLen oldChars newChars i j + length (filter isUnchanged r)"
proof -
  have "i \<le> length oldChars \<longrightarrow> j \<le> length newChars \<longrightarrow>
      length (filter isUnchanged (backtrace oldChars newChars matrix i j r))
      = lcsLen oldChars newChars i j + length (filter isUnchanged r)"
  proof (rule backtrace_rule [where Q = "\<lambda>i j r res. i \<le> length oldChars \<longrightarrow>
          j \<le> length newChars \<longrightarrow>
          length (filter isUnchanged res) = lcsLen oldChars newChars i j + length (filter isUnchanged r)"],
      goal_cases)
    case (1 r)
    then show ?case by simp
  next
    case (2 i j r res)
    then show ?case
      by (auto simp: lcsLen_step isUnchanged_def isAdded_def isRemoved_def)
  next
    case (3 i j r res)
    show ?case
    proof (intro impI)
      assume le: "i \<le> length oldChars" "j \<le> length newChars"
      have "lcsLen oldChars newChars i j = lcsLen oldChars newChars i (j - 1)"
      proof (cases "i = 0")
        case True
        then show ?thesis by simp
      next
        case False
        with 3 le have "lcsLen oldChars newChars (i - 1) j \<le> lcsLen oldChars newChars i (j - 1)"
          using table [of "i - 1" j] table [of i "j - 1"] by simp
        with False 3 show ?thesis
          by (simp add: lcsLen_step)
      qed
      with 3 le show "length (filter isUnchanged res)
          = lcsLen oldChars newChars i j + length (filter isUnchanged r)"
        by (simp add: isUnchanged_def isAdded_def isRemoved_def)
    qed
  next
    case (4 i j r res)
    show ?case
    proof (intro impI)
      assume le: "i \<le> length oldChars" "j \<le> length newChars"
      have "lcsLen oldChars newChars i j = lcsLen oldChars newChars (i - 1) j"
      proof (cases "j = 0")
        case True
        then show ?thesis by simp
      next
        case False
        with 4 le have "lcsLen oldChars newChars i (j - 1) < lcsLen oldChars newChars (i - 1) j"
          using table [of "i - 1" j] table [of i "j - 1"] by simp
        with False 4 show ?thesis
          by (simp add: lcsLen_step)
      qed
      with 4 le show "length (filter isUnchanged res)
          = lcsLen oldChars newChars i j + length (filter isUnchanged r)"
        by (simp add: isUnchanged_def isAdded_def isRemoved_def)
    qed
  qed
  with assms(2,3) show ?thesis
    by simp
qed

section \<open>The table of common subsequence lengths\<close>

lemma lcsCell_step:
  assumes inv: "lcsInv oldChars newChars i (j - 1) m" and i: "1 \<le> i" "i \<le> length oldChars"
    and j: "1 \<le> j" "j \<le> length newChars"
  shows "lcsInv oldChars newChars i j (lcsCell oldChars newChars i m j)"
proof -
  have sh: "shape m (length oldChars + 1) (length newChars + 1)"
    using inv by (simp add: lcsInv_def)
  have known: "\<And>r c. tableDone (length oldChars) (length newChars) i (j - 1) r c \<Longrightarrow>
      m ! r ! c = lcsLen oldChars newChars r c"
    using inv by (simp add: lcsInv_def)
  have c1: "m ! (i - 1) ! (j - 1) = lcsLen oldChars newChars (i - 1) (j - 1)"
    using i j by (intro known) (auto simp: tableDone_def)
  have c2: "m ! (i - 1) ! j = lcsLen oldChars newChars (i - 1) j"
    using i j by (intro known) (auto simp: tableDone_def)
  have c3: "m ! i ! (j - 1) = lcsLen oldChars newChars i (j - 1)"
    using i j by (intro known) (auto simp: tableDone_def)
  have new: "lcsCell oldChars newChars i m j = setCell m i j (lcsLen oldChars newChars i j)"
    using i j unfolding lcsCell_def c1 c2 c3 by (simp add: lcsLen_step)
  show ?thesis
    unfolding lcsInv_def new
  proof (intro conjI allI impI)
    show "shape (setCell m i j (lcsLen oldChars newChars i j))
        (length oldChars + 1) (length newChars + 1)"
      using sh by (rule shape_setCell)
  next
    fix r c
    assume d: "tableDone (length oldChars) (length newChars) i j r c"
    then have rc: "r \<le> length oldChars" "c \<le> length newChars"
      by (simp_all add: tableDone_def)
    show "setCell m i j (lcsLen oldChars newChars i j) ! r ! c = lcsLen oldChars newChars r c"
    proof (cases "r = i \<and> c = j")
      case True
      then show ?thesis
        using i j by (simp add: nth_setCell [OF sh])
    next
      case False
      with d have "tableDone (length oldChars) (length newChars) i (j - 1) r c"
        by (auto simp: tableDone_def)
      then have "m ! r ! c = lcsLen oldChars newChars r c"
        by (rule known)
      with False show ?thesis
        using i j rc by (auto simp: nth_setCell [OF sh])
    qed
  qed
qed

lemma lcsRow_step:
  assumes inv: "lcsInv oldChars newChars i 0 m" and i: "1 \<le> i" "i \<le> length oldChars"
  shows "lcsInv oldChars newChars (Suc i) 0 (lcsRow oldChars newChars m i)"
proof -
  have "lcsInv oldChars newChars i (length newChars + 1 - 1)
      (foldl (lcsCell oldChars newChars i) m [1..<length newChars + 1])"
  proof (rule foldl_upt_invariant [where P = "\<lambda>j. lcsInv oldChars newChars i (j - 1)"])
    show "lcsInv oldChars newChars i (1 - 1) m"
      using inv by simp
  next
    fix j y
    assume "1 \<le> j" "j < length newChars + 1" "lcsInv oldChars newChars i (j - 1) y"
    then show "lcsInv oldChars newChars i (Suc j - 1) (lcsCell oldChars newChars i y j)"
      using lcsCell_step [of oldChars newChars i j y] i by simp
  qed simp
  then have row: "lcsInv oldChars newChars i (length newChars) (lcsRow oldChars newChars m i)"
    by (simp add: lcsRow_def)
  have "tableDone (length oldChars) (length newChars) i (length newChars) r c"
    if "tableDone (length oldChars) (length newChars) (Suc i) 0 r c" for r c
    using that by (auto simp: tableDone_def)
  with row show ?thesis
    unfolding lcsInv_def by blast
qed

lemma lcsMatrix_lcsLen:
  assumes "r \<le> length oldChars" "c \<le> length newChars"
  shows "lcsMatrix oldChars newChars ! r ! c = lcsLen oldChars newChars r c"
proof -
  let ?m0 = "replicate (length oldChars + 1) (replicate (length newChars + 1) (0::nat))"
  have init: "lcsInv oldChars newChars 1 0 ?m0"
    unfolding lcsInv_def
  proof (intro conjI allI impI)
    show "shape ?m0 (length oldChars + 1) (length newChars + 1)"
      by (rule shape_replicate)
  next
    fix r c
    assume "tableDone (length oldChars) (length newChars) 1 0 r c"
    then have "r \<le> length oldChars" "c \<le> length newChars" "r = 0 \<or> c = 0"
      by (auto simp: tableDone_def)
    then show "?m0 ! r ! c = lcsLen oldChars newChars r c"
      by (auto simp: nth_Cons')
  qed
  have "lcsInv oldChars newChars (length oldChars + 1) 0
      (foldl (lcsRow oldChars newChars) ?m0 [1..<length oldChars + 1])"
  proof (rule foldl_upt_invariant [where P = "\<lambda>i. lcsInv oldChars newChars i 0"])
    show "lcsInv oldChars newChars 1 0 ?m0"
      by (rule init)
  next
    fix i y
    assume "1 \<le> i" "i < length oldChars + 1" "lcsInv oldChars newChars i 0 y"
    then show "lcsInv oldChars newChars (Suc i) 0 (lcsRow oldChars newChars y i)"
      by (intro lcsRow_step) auto
  qed simp
  then have "lcsInv oldChars newChars (length oldChars + 1) 0 (lcsMatrix oldChars newChars)"
    by (simp add: lcsMatrix_def)
  with assms show ?thesis
    by (auto simp: lcsInv_def tableDone_def)
qed

lemma subseq_singleton_right: "subseq zs [x] \<longleftrightarrow> zs = [] \<or> zs = [x]"
  by (cases zs) auto

lemma subseq_snoc_iff:
  "subseq zs (xs @ [x]) \<longleftrightarrow> subseq zs xs \<or> (\<exists>ws. zs = ws @ [x] \<and> subseq ws xs)"
proof
  assume "subseq zs (xs @ [x])"
  then obtain xs1 xs2 where *: "zs = xs1 @ xs2" "subseq xs1 xs" "subseq xs2 [x]"
    by (rule subseq_appendE)
  from *(3) have "xs2 = [] \<or> xs2 = [x]"
    by (simp add: subseq_singleton_right)
  with * show "subseq zs xs \<or> (\<exists>ws. zs = ws @ [x] \<and> subseq ws xs)"
    by auto
next
  assume "subseq zs xs \<or> (\<exists>ws. zs = ws @ [x] \<and> subseq ws xs)"
  then show "subseq zs (xs @ [x])"
  proof
    assume "subseq zs xs"
    then show ?thesis by (rule subseq_rev_drop_many)
  next
    assume "\<exists>ws. zs = ws @ [x] \<and> subseq ws xs"
    then obtain ws where "zs = ws @ [x]" "subseq ws xs"
      by blast
    then show ?thesis
      by (simp add: list_emb_append_mono)
  qed
qed

lemma subseq_butlast: "subseq (ws @ [w]) xs \<Longrightarrow> subseq ws xs"
proof -
  assume a: "subseq (ws @ [w]) xs"
  have "subseq ws (ws @ [w])"
    by (rule subseq_rev_drop_many) (rule list_emb_refl, rule refl)
  from this a show "subseq ws xs"
    by (rule subseq_order.trans)
qed

lemma lcsLen_upper:
  assumes "i \<le> length xs" "j \<le> length ys"
    and "subseq zs (take i xs)" "subseq zs (take j ys)"
  shows "length zs \<le> lcsLen xs ys i j"
  using assms
proof (induction xs ys i j arbitrary: zs rule: lcsLen.induct)
  case (1 xs ys j)
  then show ?case by simp
next
  case (2 xs ys i)
  then show ?case by simp
next
  case (3 xs ys i j)
  from "3.prems" have ij: "i < length xs" "j < length ys" "i \<le> length xs" "j \<le> length ys"
    by simp_all
  have tx: "take (Suc i) xs = take i xs @ [xs ! i]" and ty: "take (Suc j) ys = take j ys @ [ys ! j]"
    using ij by (simp_all add: take_Suc_conv_app_nth)
  from "3.prems"(3) consider (dropx) "subseq zs (take i xs)"
    | (lastx) ws where "zs = ws @ [xs ! i]" "subseq ws (take i xs)"
    unfolding tx subseq_snoc_iff by blast
  then show ?case
  proof cases
    case dropx
    show ?thesis
    proof (cases "xs ! i = ys ! j")
      case True
      from "3.prems"(4) consider "subseq zs (take j ys)"
        | ws where "zs = ws @ [ys ! j]" "subseq ws (take j ys)"
        unfolding ty subseq_snoc_iff by blast
      then show ?thesis
      proof cases
        case 1
        with dropx True ij "3.IH"(1) [of zs] show ?thesis
          by simp
      next
        case 2
        with dropx have "subseq ws (take i xs)"
          by (auto dest: subseq_butlast)
        with 2 True ij "3.IH"(1) [of ws] show ?thesis
          by simp
      qed
    next
      case False
      with dropx "3.prems"(4) ij "3.IH"(2) [of zs] show ?thesis
        by simp
    qed
  next
    case lastx
    from "3.prems"(4) consider (dropy) "subseq zs (take j ys)"
      | (lasty) vs where "zs = vs @ [ys ! j]" "subseq vs (take j ys)"
      unfolding ty subseq_snoc_iff by blast
    then show ?thesis
    proof cases
      case dropy
      show ?thesis
      proof (cases "xs ! i = ys ! j")
        case True
        from dropy lastx have "subseq ws (take j ys)"
          by (auto dest: subseq_butlast)
        with lastx True ij "3.IH"(1) [of ws] show ?thesis
          by simp
      next
        case False
        with dropy "3.prems"(3) ij "3.IH"(3) [of zs] show ?thesis
          by simp
      qed
    next
      case lasty
      with lastx have eq: "xs ! i = ys ! j" "vs = ws"
        by simp_all
      with lastx lasty ij "3.IH"(1) [of ws] show ?thesis
        by simp
    qed
  qed
qed

lemma lcsLen_attained:
  assumes "i \<le> length xs" "j \<le> length ys"
  shows "\<exists>zs. subseq zs (take i xs) \<and> subseq zs (take j ys) \<and> length zs = lcsLen xs ys i j"
  using assms
proof (induction xs ys i j rule: lcsLen.induct)
  case (1 xs ys j)
  then show ?case by simp
next
  case (2 xs ys i)
  then show ?case by simp
next
  case (3 xs ys i j)
  from "3.prems" have ij: "i < length xs" "j < length ys" "i \<le> length xs" "j \<le> length ys"
    by simp_all
  have tx: "take (Suc i) xs = take i xs @ [xs ! i]" and ty: "take (Suc j) ys = take j ys @ [ys ! j]"
    using ij by (simp_all add: take_Suc_conv_app_nth)
  show ?case
  proof (cases "xs ! i = ys ! j")
    case True
    with "3.IH"(1) ij obtain zs where zs: "subseq zs (take i xs)" "subseq zs (take j ys)"
        "length zs = lcsLen xs ys i j"
      by blast
    have "subseq (zs @ [xs ! i]) (take (Suc i) xs)" "subseq (zs @ [xs ! i]) (take (Suc j) ys)"
      unfolding tx ty using zs True by (auto simp: subseq_snoc_iff)
    with zs True show ?thesis
      by (intro exI [of _ "zs @ [xs ! i]"]) simp
  next
    case False
    show ?thesis
    proof (cases "lcsLen xs ys (Suc i) j \<le> lcsLen xs ys i (Suc j)")
      case True
      from "3.IH"(2) False "3.prems" ij obtain zs where zs: "subseq zs (take i xs)"
          "subseq zs (take (Suc j) ys)" "length zs = lcsLen xs ys i (Suc j)"
        by blast
      have "subseq zs (take (Suc i) xs)"
        unfolding tx using zs by (simp add: subseq_snoc_iff)
      with zs True False show ?thesis
        by (intro exI [of _ zs]) (simp add: max_def)
    next
      case le: False
      from "3.IH"(3) False "3.prems" ij obtain zs where zs: "subseq zs (take (Suc i) xs)"
          "subseq zs (take j ys)" "length zs = lcsLen xs ys (Suc i) j"
        by blast
      have "subseq zs (take (Suc j) ys)"
        unfolding ty using zs by (simp add: subseq_snoc_iff)
      with zs le False show ?thesis
        by (intro exI [of _ zs]) (simp add: max_def)
    qed
  qed
qed

section \<open>Coalescing\<close>

lemma coalesceStep_snoc:
  "coalesceStep (ys @ [l]) cur =
     (if added l = added cur \<and> removed l = removed cur
      then ys @ [l\<lparr>value := value l @ value cur\<rparr>] else ys @ [l, cur])"
  by (simp add: coalesceStep_def Let_def)

lemma foldl_nth_upt:
  "foldl (\<lambda>acc k. f acc (xs ! k)) a [n..<length xs] = foldl f a (drop n xs)"
proof -
  have "foldl (\<lambda>acc k. f acc (xs ! k)) a ks = foldl f a (map (nth xs) ks)" for ks
    by (induction ks arbitrary: a) simp_all
  moreover have "map (nth xs) [n..<length xs] = drop n xs"
    by (rule nth_equalityI) simp_all
  ultimately show ?thesis
    by simp
qed

lemma diffStrings_coalesce:
  "diffStrings oldStr newStr =
     (case editScript oldStr newStr of [] \<Rightarrow> [] | r # rs \<Rightarrow> foldl coalesceStep [r] rs)"
proof (cases "editScript oldStr newStr")
  case Nil
  then show ?thesis
    by (simp add: diffStrings_def)
next
  case (Cons r rs)
  have "foldl (\<lambda>coalesced k. coalesceStep coalesced ((r # rs) ! k)) [r] [1..<length (r # rs)]
      = foldl coalesceStep [r] (drop 1 (r # rs))"
    by (rule foldl_nth_upt)
  with Cons show ?thesis
    by (simp add: diffStrings_def Let_def)
qed

lemma coalesceStep_nonempty: "acc \<noteq> [] \<Longrightarrow> coalesceStep acc cur \<noteq> []"
  by (cases acc rule: rev_cases) (simp_all add: coalesceStep_snoc)

lemma coalesceStep_filter:
  assumes P: "\<And>s t. added s = added t \<Longrightarrow> removed s = removed t \<Longrightarrow> P s = P t"
    and acc: "acc \<noteq> []"
  shows "concat (map value (filter P (coalesceStep acc cur)))
    = concat (map value (filter P acc)) @ concat (map value (filter P [cur]))"
proof -
  from acc obtain ys l where ys: "acc = ys @ [l]"
    by (cases acc rule: rev_cases) auto
  show ?thesis
  proof (cases "added l = added cur \<and> removed l = removed cur")
    case True
    then have "P l = P cur" "P (l\<lparr>value := value l @ value cur\<rparr>) = P cur"
      by (intro P; simp)+
    with True show ?thesis
      by (simp add: ys coalesceStep_snoc)
  next
    case False
    then show ?thesis
      by (auto simp: ys coalesceStep_snoc)
  qed
qed

lemma coalesce_filter:
  assumes P: "\<And>s t. added s = added t \<Longrightarrow> removed s = removed t \<Longrightarrow> P s = P t"
    and acc: "acc \<noteq> []"
  shows "concat (map value (filter P (foldl coalesceStep acc rest)))
    = concat (map value (filter P acc)) @ concat (map value (filter P rest))"
  using acc
proof (induction rest arbitrary: acc)
  case Nil
  then show ?case by simp
next
  case (Cons cur rest)
  have "concat (map value (filter P (foldl coalesceStep (coalesceStep acc cur) rest)))
      = concat (map value (filter P (coalesceStep acc cur))) @ concat (map value (filter P rest))"
    using Cons.prems by (intro Cons.IH coalesceStep_nonempty)
  also have "concat (map value (filter P (coalesceStep acc cur)))
      = concat (map value (filter P acc)) @ concat (map value (filter P [cur]))"
    using Cons.prems by (intro coalesceStep_filter P)
  finally show ?case
    by simp
qed

lemma coalesceStep_rawSpan:
  assumes "acc \<noteq> []" "list_all rawSpan acc" "rawSpan cur"
  shows "list_all rawSpan (coalesceStep acc cur)"
proof -
  from assms(1) obtain ys l where ys: "acc = ys @ [l]"
    by (cases acc rule: rev_cases) auto
  with assms(2,3) show ?thesis
    by (auto simp: coalesceStep_snoc rawSpan_def)
qed

lemma coalesce_rawSpan:
  assumes "acc \<noteq> []" "list_all rawSpan acc" "list_all rawSpan rest"
  shows "list_all rawSpan (foldl coalesceStep acc rest)"
  using assms
proof (induction rest arbitrary: acc)
  case Nil
  then show ?case by simp
next
  case (Cons cur rest)
  then show ?case
    by (simp add: coalesceStep_rawSpan coalesceStep_nonempty)
qed

lemma coalesceStep_distinct_adj:
  assumes "acc \<noteq> []" "distinct_adj (map tagsOf acc)"
  shows "distinct_adj (map tagsOf (coalesceStep acc cur))"
proof -
  from assms(1) obtain ys l where ys: "acc = ys @ [l]"
    by (cases acc rule: rev_cases) auto
  show ?thesis
  proof (cases "added l = added cur \<and> removed l = removed cur")
    case True
    then have "map tagsOf (coalesceStep acc cur) = map tagsOf acc"
      by (simp add: ys coalesceStep_snoc tagsOf_def)
    with assms(2) show ?thesis
      by simp
  next
    case False
    then have "map tagsOf (coalesceStep acc cur) = map tagsOf acc @ [tagsOf cur]"
        and "tagsOf l \<noteq> tagsOf cur"
      by (auto simp: ys coalesceStep_snoc tagsOf_def)
    with assms(2) show ?thesis
      by (simp add: ys distinct_adj_append_iff)
  qed
qed

lemma coalesce_distinct_adj:
  assumes "acc \<noteq> []" "distinct_adj (map tagsOf acc)"
  shows "distinct_adj (map tagsOf (foldl coalesceStep acc rest))"
  using assms
proof (induction rest arbitrary: acc)
  case Nil
  then show ?case by simp
next
  case (Cons cur rest)
  then show ?case
    by (simp add: coalesceStep_distinct_adj coalesceStep_nonempty)
qed

lemma rawSpan_classify_inj:
  "rawSpan s \<Longrightarrow> rawSpan t \<Longrightarrow> classify s = classify t \<Longrightarrow> tagsOf s = tagsOf t"
  by (auto simp: rawSpan_def classify_def isAdded_def isRemoved_def tagsOf_def split: if_splits)

lemma rawSpan_classify: "rawSpan s \<Longrightarrow> classify s \<noteq> AddedAndRemoved \<and> value s \<noteq> []"
  by (auto simp: rawSpan_def classify_def isAdded_def isRemoved_def)

lemma distinct_adj_classify:
  assumes "list_all rawSpan xs" "distinct_adj (map tagsOf xs)"
  shows "distinct_adj (map classify xs)"
  unfolding distinct_adj_conv_nth
proof (intro allI impI)
  fix i
  assume i: "Suc i < length (map classify xs)"
  then have "rawSpan (xs ! i)" "rawSpan (xs ! Suc i)"
    using assms(1) by (simp_all add: list_all_length)
  moreover have "tagsOf (xs ! i) \<noteq> tagsOf (xs ! Suc i)"
    using assms(2) i by (auto simp: distinct_adj_conv_nth)
  ultimately show "map classify xs ! i \<noteq> map classify xs ! Suc i"
    using i by (auto dest: rawSpan_classify_inj)
qed

lemma editScript_rawSpan: "list_all rawSpan (editScript oldStr newStr)"
  unfolding editScript_def Let_def
  by (rule backtrace_rawSpan) (simp_all add: arrayFrom_nonempty)

lemma editScript_new:
  "map value (filter (\<lambda>s. \<not> isRemoved s) (editScript oldStr newStr)) = arrayFrom newStr"
  unfolding editScript_def Let_def by (simp add: backtrace_new)

lemma editScript_old:
  "map value (filter (\<lambda>s. \<not> isAdded s) (editScript oldStr newStr)) = arrayFrom oldStr"
  unfolding editScript_def Let_def by (simp add: backtrace_old)

lemma diffStrings_rawSpan: "list_all rawSpan (diffStrings oldStr newStr)"
  using editScript_rawSpan [of oldStr newStr]
  by (auto simp: diffStrings_coalesce coalesce_rawSpan split: list.splits)

lemma diffStrings_distinct_adj: "distinct_adj (map tagsOf (diffStrings oldStr newStr))"
  by (auto simp: diffStrings_coalesce coalesce_distinct_adj split: list.splits)

lemma diffStrings_filter:
  assumes P: "\<And>s t. added s = added t \<Longrightarrow> removed s = removed t \<Longrightarrow> P s = P t"
  shows "concat (map value (filter P (diffStrings oldStr newStr)))
    = concat (map value (filter P (editScript oldStr newStr)))"
proof (cases "editScript oldStr newStr")
  case Nil
  then show ?thesis
    by (simp add: diffStrings_coalesce)
next
  case (Cons r rs)
  have "concat (map value (filter P (foldl coalesceStep [r] rs)))
      = concat (map value (filter P [r])) @ concat (map value (filter P rs))"
    by (intro coalesce_filter P) simp_all
  with Cons show ?thesis
    by (simp add: diffStrings_coalesce)
qed

lemma diffStrings_new:
  "concat (map value (filter (\<lambda>s. \<not> isRemoved s) (diffStrings oldStr newStr))) = newStr"
proof -
  have "concat (map value (filter (\<lambda>s. \<not> isRemoved s) (diffStrings oldStr newStr)))
      = concat (map value (filter (\<lambda>s. \<not> isRemoved s) (editScript oldStr newStr)))"
    by (intro diffStrings_filter) (simp add: isRemoved_def)
  then show ?thesis
    by (simp add: editScript_new concat_arrayFrom)
qed

lemma diffStrings_old:
  "concat (map value (filter (\<lambda>s. \<not> isAdded s) (diffStrings oldStr newStr))) = oldStr"
proof -
  have "concat (map value (filter (\<lambda>s. \<not> isAdded s) (diffStrings oldStr newStr)))
      = concat (map value (filter (\<lambda>s. \<not> isAdded s) (editScript oldStr newStr)))"
    by (intro diffStrings_filter) (simp add: isAdded_def)
  then show ?thesis
    by (simp add: editScript_old concat_arrayFrom)
qed

section \<open>Properties of diffStrings\<close>

lemma editScript_unchanged:
  "length (filter isUnchanged (editScript oldStr newStr))
   = lcsLen (arrayFrom oldStr) (arrayFrom newStr)
       (length (arrayFrom oldStr)) (length (arrayFrom newStr))"
proof -
  have "length (filter isUnchanged
      (backtrace (arrayFrom oldStr) (arrayFrom newStr)
         (lcsMatrix (arrayFrom oldStr) (arrayFrom newStr))
         (length (arrayFrom oldStr)) (length (arrayFrom newStr)) []))
    = lcsLen (arrayFrom oldStr) (arrayFrom newStr)
        (length (arrayFrom oldStr)) (length (arrayFrom newStr)) + length (filter isUnchanged [])"
    by (rule backtrace_unchanged) (simp_all add: lcsMatrix_lcsLen)
  then show ?thesis
    by (simp add: editScript_def Let_def)
qed

lemma lcsLen_isLcsLength: "isLcsLength xs ys (lcsLen xs ys (length xs) (length ys))"
  unfolding isLcsLength_def
proof (intro conjI allI impI)
  show "\<exists>zs. subseq zs xs \<and> subseq zs ys \<and> length zs = lcsLen xs ys (length xs) (length ys)"
    using lcsLen_attained [of "length xs" xs "length ys" ys] by simp
next
  fix zs
  assume "subseq zs xs \<and> subseq zs ys"
  then show "length zs \<le> lcsLen xs ys (length xs) (length ys)"
    using lcsLen_upper [of "length xs" xs "length ys" ys zs] by simp
qed

lemma rawSpan_count_not_added:
  "list_all rawSpan es \<Longrightarrow>
   length (filter (\<lambda>s. \<not> isAdded s) es)
   = length (filter isUnchanged es) + length (filter isRemoved es)"
  by (induction es) (auto simp: rawSpan_def isUnchanged_def isAdded_def isRemoved_def)

lemma rawSpan_count_not_removed:
  "list_all rawSpan es \<Longrightarrow>
   length (filter (\<lambda>s. \<not> isRemoved s) es)
   = length (filter isUnchanged es) + length (filter isAdded es)"
  by (induction es) (auto simp: rawSpan_def isUnchanged_def isAdded_def isRemoved_def)

lemma filter_empty_values:
  assumes "list_all (\<lambda>s. value s \<noteq> []) xs" "concat (map value (filter P xs)) = []"
  shows "list_all (\<lambda>s. \<not> P s) xs"
  using assms
proof (induction xs)
  case Nil
  then show ?case by simp
next
  case (Cons x xs)
  from Cons.prems(1) have x: "value x \<noteq> []" and xs: "list_all (\<lambda>s. value s \<noteq> []) xs"
    by simp_all
  have notP: "\<not> P x"
  proof
    assume "P x"
    with Cons.prems(2) have "value x = []"
      by simp
    with x show False
      by simp
  qed
  with Cons.prems(2) have "concat (map value (filter P xs)) = []"
    by simp
  with xs have "list_all (\<lambda>s. \<not> P s) xs"
    by (rule Cons.IH)
  with notP show ?case
    by simp
qed

lemma filter_all: "list_all P xs \<Longrightarrow> filter P xs = xs"
  by (induction xs) auto

text \<open>
  C1: the spans of \<open>diffStrings(old, new)\<close> that are not tagged removed concatenate to
  \<open>new\<close>, and those that are not tagged added concatenate to \<open>old\<close>.
\<close>

theorem diffStrings_reconstructs:
  "concat (map value (filter (\<lambda>s. \<not> isRemoved s) (diffStrings oldStr newStr))) = newStr \<and>
   concat (map value (filter (\<lambda>s. \<not> isAdded s) (diffStrings oldStr newStr))) = oldStr"
  by (simp add: diffStrings_new diffStrings_old)

text \<open>
  C5: the edit script of \<open>diffStrings\<close> (the array \<open>result\<close> before its runs are joined)
  is minimal. Each of its entries holds one character unit, an element of
  \<open>Array.from(old)\<close> or \<open>Array.from(new)\<close>; the number of entries tagged unchanged is the
  length of a longest common subsequence of the two sequences of units, the number of
  removed entries is the length of \<open>old\<close> less that, and the number of added entries is the
  length of \<open>new\<close> less that. The spans that \<open>diffStrings\<close> returns are these entries
  joined: under each classification they hold the same text.
\<close>

theorem editScript_minimal:
  "let es = editScript oldStr newStr;
       oldChars = arrayFrom oldStr;
       newChars = arrayFrom newStr;
       k = length (filter isUnchanged es)
   in map value (filter (\<lambda>s. \<not> isAdded s) es) = oldChars \<and>
      map value (filter (\<lambda>s. \<not> isRemoved s) es) = newChars \<and>
      isLcsLength oldChars newChars k \<and>
      length (filter isRemoved es) = length oldChars - k \<and>
      length (filter isAdded es) = length newChars - k \<and>
      concat (map value (filter isUnchanged (diffStrings oldStr newStr)))
        = concat (map value (filter isUnchanged es)) \<and>
      concat (map value (filter isRemoved (diffStrings oldStr newStr)))
        = concat (map value (filter isRemoved es)) \<and>
      concat (map value (filter isAdded (diffStrings oldStr newStr)))
        = concat (map value (filter isAdded es))"
proof -
  let ?es = "editScript oldStr newStr"
  have "length (filter (\<lambda>s. \<not> isAdded s) ?es) = length (arrayFrom oldStr)"
      "length (filter (\<lambda>s. \<not> isRemoved s) ?es) = length (arrayFrom newStr)"
    using editScript_old [of oldStr newStr, THEN arg_cong, of length]
      editScript_new [of oldStr newStr, THEN arg_cong, of length] by simp_all
  then have "length (filter isRemoved ?es)
        = length (arrayFrom oldStr) - length (filter isUnchanged ?es)"
      "length (filter isAdded ?es)
        = length (arrayFrom newStr) - length (filter isUnchanged ?es)"
    using rawSpan_count_not_added [OF editScript_rawSpan, of oldStr newStr]
      rawSpan_count_not_removed [OF editScript_rawSpan, of oldStr newStr] by simp_all
  moreover have "isLcsLength (arrayFrom oldStr) (arrayFrom newStr)
      (length (filter isUnchanged ?es))"
    unfolding editScript_unchanged by (rule lcsLen_isLcsLength)
  moreover have "concat (map value (filter isUnchanged (diffStrings oldStr newStr)))
      = concat (map value (filter isUnchanged ?es))"
    by (intro diffStrings_filter) (simp add: isUnchanged_def isAdded_def isRemoved_def)
  moreover have "concat (map value (filter isRemoved (diffStrings oldStr newStr)))
      = concat (map value (filter isRemoved ?es))"
    by (intro diffStrings_filter) (simp add: isRemoved_def)
  moreover have "concat (map value (filter isAdded (diffStrings oldStr newStr)))
      = concat (map value (filter isAdded ?es))"
    by (intro diffStrings_filter) (simp add: isAdded_def)
  ultimately show ?thesis
    by (simp add: Let_def editScript_old editScript_new)
qed

theorem editScript_minimal_witness:
  "2 \<le> length (filter isUnchanged (editScript (js ''abc'') (js ''axc'')))"
proof -
  have "isLcsLength (arrayFrom (js ''abc'')) (arrayFrom (js ''axc''))
      (length (filter isUnchanged (editScript (js ''abc'') (js ''axc''))))"
    using editScript_minimal [of "js ''abc''" "js ''axc''"] by (simp add: Let_def)
  moreover have "subseq [[0x61], [0x63]] (arrayFrom (js ''abc''))"
      "subseq [[0x61], [0x63]] (arrayFrom (js ''axc''))"
    by (simp_all add: js_def isHighSurrogate_def isLowSurrogate_def)
  ultimately have "length [[0x61 :: code_unit], [0x63]]
      \<le> length (filter isUnchanged (editScript (js ''abc'') (js ''axc'')))"
    unfolding isLcsLength_def by blast
  then show ?thesis
    by simp
qed

text \<open>
  C6: every span of the result of \<open>diffStrings\<close> is unchanged, added or removed and never
  both added and removed, its value is not empty, and two consecutive spans never have the
  same classification.
\<close>

theorem diffStrings_spans:
  "list_all (\<lambda>s. classify s \<noteq> AddedAndRemoved \<and> value s \<noteq> []) (diffStrings oldStr newStr) \<and>
   distinct_adj (map classify (diffStrings oldStr newStr))"
proof
  show "list_all (\<lambda>s. classify s \<noteq> AddedAndRemoved \<and> value s \<noteq> []) (diffStrings oldStr newStr)"
    using diffStrings_rawSpan [of oldStr newStr]
    by (rule list.pred_mono_strong) (rule rawSpan_classify)
  show "distinct_adj (map classify (diffStrings oldStr newStr))"
    using diffStrings_rawSpan diffStrings_distinct_adj by (rule distinct_adj_classify)
qed

text \<open>
  C7: the spans of \<open>diffStrings("", new)\<close> are all tagged added and concatenate to \<open>new\<close>,
  the spans of \<open>diffStrings(old, "")\<close> are all tagged removed and concatenate to \<open>old\<close>,
  and \<open>diffStrings("", "")\<close> is the empty list.
\<close>

theorem diffStrings_empty:
  "list_all (\<lambda>s. classify s = Added) (diffStrings [] newStr) \<and>
   concat (map value (diffStrings [] newStr)) = newStr \<and>
   list_all (\<lambda>s. classify s = Removed) (diffStrings oldStr []) \<and>
   concat (map value (diffStrings oldStr [])) = oldStr \<and>
   diffStrings [] [] = []"
proof (intro conjI)
  let ?new = "diffStrings [] newStr" and ?old = "diffStrings oldStr []"
  have vals: "list_all (\<lambda>s. value s \<noteq> []) (diffStrings a b)" for a b
    using diffStrings_rawSpan [of a b] by (rule list.pred_mono_strong) (simp add: rawSpan_def)
  have "list_all (\<lambda>s. \<not> \<not> isAdded s) ?new"
    using vals by (rule filter_empty_values) (simp add: diffStrings_old)
  then have added: "list_all (\<lambda>s. isAdded s \<and> rawSpan s) ?new"
    using diffStrings_rawSpan [of "[]" newStr] by (simp add: list_all_iff)
  then show "list_all (\<lambda>s. classify s = Added) ?new"
    by (rule list.pred_mono_strong)
      (auto simp: classify_def rawSpan_def isAdded_def isRemoved_def)
  from added have "list_all (\<lambda>s. \<not> isRemoved s) ?new"
    by (rule list.pred_mono_strong) (auto simp: rawSpan_def isAdded_def isRemoved_def)
  then have "filter (\<lambda>s. \<not> isRemoved s) ?new = ?new"
    by (rule filter_all)
  with diffStrings_new [of "[]" newStr] show "concat (map value ?new) = newStr"
    by simp
  have "list_all (\<lambda>s. \<not> \<not> isRemoved s) ?old"
    using vals by (rule filter_empty_values) (simp add: diffStrings_new)
  then have removed: "list_all (\<lambda>s. isRemoved s \<and> rawSpan s) ?old"
    using diffStrings_rawSpan [of oldStr "[]"] by (simp add: list_all_iff)
  then show "list_all (\<lambda>s. classify s = Removed) ?old"
    by (rule list.pred_mono_strong)
      (auto simp: classify_def rawSpan_def isAdded_def isRemoved_def)
  from removed have "list_all (\<lambda>s. \<not> isAdded s) ?old"
    by (rule list.pred_mono_strong) (auto simp: rawSpan_def isAdded_def isRemoved_def)
  then have "filter (\<lambda>s. \<not> isAdded s) ?old = ?old"
    by (rule filter_all)
  with diffStrings_old [of oldStr "[]"] show "concat (map value ?old) = oldStr"
    by simp
  have "backtrace [] [] (lcsMatrix [] []) 0 0 [] = []"
    by (subst backtrace.simps) simp
  then show "diffStrings [] [] = []"
    by (simp add: diffStrings_def editScript_def)
qed

section \<open>The examples of the specification\<close>

lemma compareAccountNumbers_examples:
  "compareAccountNumbers unicodeUpper (js ''SA12 0001'') (js ''sa120001'')"
  "\<not> compareAccountNumbers unicodeUpper (js []) (js ''12345'')"
  by (simp_all add: compareAccountNumbers_eq_accountRule accountRule_def normalizeAccount_def
      js_def isAsciiAlnum_def asciiUpper_def)

lemma diffStrings_examples:
  "diffStrings (js ''abc'') (js ''abc'') = [\<lparr>value = js ''abc'', added = None, removed = None\<rparr>]"
  "diffStrings (js ''abc'') (js ''axc'') =
     [\<lparr>value = js ''a'', added = None, removed = None\<rparr>,
      \<lparr>value = js ''b'', added = None, removed = Some True\<rparr>,
      \<lparr>value = js ''x'', added = Some True, removed = None\<rparr>,
      \<lparr>value = js ''c'', added = None, removed = None\<rparr>]"
  by code_simp+

lemma fuzzyMatch_examples:
  "fuzzyMatch (js ''kitten'') (js ''sitting'') (round64 (7 / 10)) = False"
  "fuzzyMatch (js ''abcdefghij'') (js ''abcdefgxyz'') (round64 (7 / 10)) = True"
  "fuzzyMatch (js ''abcde'') (js ''abcdx'') (round64 (8 / 10)) = True"
  by code_simp+

end
